theory Spec2Isabelle
  imports Main
begin

section \<open>Strings of the host language\<close>

text \<open>
  A JavaScript string is modelled as a \<open>string\<close>: a list of characters with codes 0 to 255.
  \<open>is_space\<close> holds the white space and line terminators that \<open>String.prototype.trim\<close>
  removes (tab, line feed, vertical tab, form feed, carriage return, space, no-break space),
  \<open>is_digit\<close> is the class \<open>\d\<close> and \<open>is_word\<close> the class \<open>\w\<close> of a regular expression
  without flags.
\<close>

definition is_space :: "char \<Rightarrow> bool" where
  "is_space c = (let n = (of_char c :: nat) in (9 \<le> n \<and> n \<le> 13) \<or> n = 32 \<or> n = 160)"

definition is_digit :: "char \<Rightarrow> bool" where
  "is_digit c = (let n = (of_char c :: nat) in 48 \<le> n \<and> n \<le> 57)"

definition is_word :: "char \<Rightarrow> bool" where
  "is_word c = (let n = (of_char c :: nat) in
     (48 \<le> n \<and> n \<le> 57) \<or> (65 \<le> n \<and> n \<le> 90) \<or> (97 \<le> n \<and> n \<le> 122) \<or> n = 95)"

text \<open>The class \<open>[\w-]\<close> of class and id tokens, and the class \<open>[\w;-]\<close> of event lists.\<close>

definition is_name :: "char \<Rightarrow> bool" where
  "is_name c = (is_word c \<or> c = CHR ''-'')"

definition is_event_char :: "char \<Rightarrow> bool" where
  "is_event_char c = (is_word c \<or> c = CHR '';'' \<or> c = CHR ''-'')"

text \<open>The dot of a regular expression matches every character but a line terminator.\<close>

definition is_line_terminator :: "char \<Rightarrow> bool" where
  "is_line_terminator c = (c = CHR 0x0A \<or> c = CHR 0x0D)"

definition trim :: "string \<Rightarrow> string" where
  "trim s = rev (dropWhile is_space (rev (dropWhile is_space s)))"

definition startsWith :: "string \<Rightarrow> string \<Rightarrow> bool" where
  "startsWith s p = (take (length p) s = p)"

text \<open>\<open>s.replace(pat, rep)\<close> with a string pattern replaces the first occurrence only.\<close>

fun replaceFirst :: "string \<Rightarrow> string \<Rightarrow> string \<Rightarrow> string" where
  "replaceFirst pat rep [] = (if pat = [] then rep else [])"
| "replaceFirst pat rep (c # cs) =
     (if take (length pat) (c # cs) = pat then rep @ drop (length pat) (c # cs)
      else c # replaceFirst pat rep cs)"

text \<open>
  \<open>s.split(sep)\<close>: the pieces of \<open>s\<close> between the occurrences of \<open>sep\<close>, found left to
  right; with the empty separator, the characters of \<open>s\<close> one by one.
\<close>

function splitOn :: "string \<Rightarrow> string \<Rightarrow> string \<Rightarrow> string list" where
  "splitOn sep cur [] = [cur]"
| "splitOn sep cur (c # cs) =
     (if sep \<noteq> [] \<and> take (length sep) (c # cs) = sep
      then cur # splitOn sep [] (drop (length sep) (c # cs))
      else splitOn sep (cur @ [c]) cs)"
  by pat_completeness auto
termination
  by (relation "measure (\<lambda>(sep, cur, s). length s)") auto

definition js_split :: "string \<Rightarrow> string \<Rightarrow> string list" where
  "js_split s sep = (if sep = [] then map (\<lambda>c. [c]) s else splitOn sep [] s)"

text \<open>\<open>">".repeat(n)\<close>, for a count that is a natural number.\<close>

definition repeat :: "string \<Rightarrow> nat \<Rightarrow> string" where
  "repeat s n = concat (replicate n s)"

text \<open>\<open>xs.splice(i, 1)\<close>: removes the element at index \<open>i\<close>, and nothing past the end.\<close>

definition splice :: "nat \<Rightarrow> 'a list \<Rightarrow> 'a list" where
  "splice i xs = take i xs @ drop (Suc i) xs"

section \<open>The document: elements and text nodes\<close>

text \<open>
  The elements the builder creates are values: the data of the element (what
  \<open>createElement\<close>, \<open>classList.add\<close>, \<open>setAttribute\<close>, the \<open>id\<close> setter and
  \<open>addEventListener\<close> were given) and the list of its child nodes. An element created by
  \<open>generate\<close> is referenced from one place only (the pending list until it is spliced out,
  a parent's child list afterwards), so a value stands for the object. The identity of the
  object is kept as \<open>uid\<close>; \<open>generate\<close> gives the element of line \<open>k\<close> the identity \<open>k\<close>.

  What the platform decides is a parameter: the value of a \<open>textarea\<close> whose \<open>innerHTML\<close>
  was set (the decoding of HTML entities), and which names \<open>document.createElement\<close> and
  \<open>setAttribute\<close> accept (they throw \<open>InvalidCharacterError\<close> on the others). The
  reflection of the \<open>class\<close> and \<open>id\<close> attributes into \<open>classList\<close> and \<open>id\<close>, the folding
  of names to lower case and \<open>console.error\<close> are not modelled.
\<close>

record platform =
  textareaValue :: "string \<Rightarrow> string"
  validElementName :: "string \<Rightarrow> bool"
  validAttributeName :: "string \<Rightarrow> bool"

datatype error = Error string | InvalidCharacterError

record ('cb, 'opt) event =
  name :: "string option"
  type :: "string option"
  callback :: "'cb option"
  options :: "'opt option"

record ('cb, 'opt) element_data =
  uid :: nat
  tagName :: string
  classList :: "string list"
  attributes :: "(string \<times> string) list"
  elem_id :: "string option"
  listeners :: "(string option \<times> 'cb option \<times> 'opt option) list"

datatype ('cb, 'opt) node =
  Element "('cb, 'opt) element_data" "('cb, 'opt) node list"
| TextNode string

fun childNodes :: "('cb, 'opt) node \<Rightarrow> ('cb, 'opt) node list" where
  "childNodes (Element d cs) = cs"
| "childNodes (TextNode t) = []"

fun is_element :: "('cb, 'opt) node \<Rightarrow> bool" where
  "is_element (Element d cs) = True"
| "is_element (TextNode t) = False"

text \<open>\<open>children\<close>: the child nodes that are elements.\<close>

definition children :: "('cb, 'opt) node \<Rightarrow> ('cb, 'opt) node list" where
  "children n = filter is_element (childNodes n)"

fun node_uid :: "('cb, 'opt) node \<Rightarrow> nat" where
  "node_uid (Element d cs) = uid d"
| "node_uid (TextNode t) = 0"

fun createElement :: "nat \<Rightarrow> string \<Rightarrow> ('cb, 'opt) node" where
  "createElement u tagname =
     Element \<lparr>uid = u, tagName = tagname, classList = [], attributes = [], elem_id = None,
       listeners = []\<rparr> []"

text \<open>
  \<open>parent.prepend(child)\<close> and \<open>parent.appendChild(child)\<close>, for a child without a parent.
  The builder calls these and the methods below on elements only; the equations for a
  text node are there to make the functions total, and are never reached.
\<close>

fun prepend :: "('cb, 'opt) node \<Rightarrow> ('cb, 'opt) node \<Rightarrow> ('cb, 'opt) node" where
  "prepend (Element d cs) child = Element d (child # cs)"
| "prepend (TextNode t) child = TextNode t"

fun appendChild :: "('cb, 'opt) node \<Rightarrow> ('cb, 'opt) node \<Rightarrow> ('cb, 'opt) node" where
  "appendChild (Element d cs) child = Element d (cs @ [child])"
| "appendChild (TextNode t) child = TextNode t"

fun classList_add :: "string \<Rightarrow> ('cb, 'opt) node \<Rightarrow> ('cb, 'opt) node" where
  "classList_add c (Element d cs) =
     Element (d\<lparr>classList := (if c \<in> set (classList d) then classList d else classList d @ [c])\<rparr>) cs"
| "classList_add c (TextNode t) = TextNode t"

fun update_attribute :: "string \<Rightarrow> string \<Rightarrow> (string \<times> string) list \<Rightarrow> (string \<times> string) list" where
  "update_attribute n v [] = [(n, v)]"
| "update_attribute n v (p # ps) = (if fst p = n then (n, v) # ps else p # update_attribute n v ps)"

fun setAttribute :: "platform \<Rightarrow> string \<Rightarrow> string \<Rightarrow> ('cb, 'opt) node \<Rightarrow> error + ('cb, 'opt) node" where
  "setAttribute pf n v (Element d cs) =
     (if validAttributeName pf n
      then Inr (Element (d\<lparr>attributes := update_attribute n v (attributes d)\<rparr>) cs)
      else Inl InvalidCharacterError)"
| "setAttribute pf n v (TextNode t) = Inr (TextNode t)"

fun set_id :: "string \<Rightarrow> ('cb, 'opt) node \<Rightarrow> ('cb, 'opt) node" where
  "set_id i (Element d cs) = Element (d\<lparr>elem_id := Some i\<rparr>) cs"
| "set_id i (TextNode t) = TextNode t"

fun addEventListener :: "('cb, 'opt) event \<Rightarrow> ('cb, 'opt) node \<Rightarrow> ('cb, 'opt) node" where
  "addEventListener ev (Element d cs) =
     Element (d\<lparr>listeners := listeners d @ [(type ev, callback ev, options ev)]\<rparr>) cs"
| "addEventListener ev (TextNode t) = TextNode t"

section \<open>The builder\<close>

record ('cb, 'opt) HTMLBuilder =
  SYMBOL_BETWEEN_ATTRIBUTES :: string
  EVENTS :: "('cb, 'opt) event list"
  parent :: "('cb, 'opt) node"

definition new_HTMLBuilder :: "('cb, 'opt) node \<Rightarrow> ('cb, 'opt) HTMLBuilder" where
  "new_HTMLBuilder p = \<lparr>SYMBOL_BETWEEN_ATTRIBUTES = '';'', EVENTS = [], parent = p\<rparr>"

definition setParent :: "('cb, 'opt) node \<Rightarrow> ('cb, 'opt) HTMLBuilder \<Rightarrow> ('cb, 'opt) HTMLBuilder" where
  "setParent p b = b\<lparr>parent := p\<rparr>"

subsection \<open>The event registry\<close>

text \<open>A missing property, and the empty string, are falsy.\<close>

definition falsy :: "string option \<Rightarrow> bool" where
  "falsy v = (v = None \<or> v = Some [])"

text \<open>
  \<open>bindEvent\<close> returns the exception it threw, if any, and the builder as it is left.
\<close>

definition bindEvent ::
  "('cb, 'opt) event \<Rightarrow> ('cb, 'opt) HTMLBuilder \<Rightarrow> error option \<times> ('cb, 'opt) HTMLBuilder" where
  "bindEvent ev b =
     (if falsy (name ev) then
        (Some (Error ''bindEvent(): cannot bind an event without a name.''), b)
      else if falsy (type ev) then
        (Some (Error ''bindEvent(): cannot bind an event without a precise type.''), b)
      else if callback ev = None then
        (Some (Error ''bindEvent(): cannot bind an event without a callback function.''), b)
      else
        (let ev' = (case name ev of
                      Some n \<Rightarrow> if startsWith n ''on''
                                then ev\<lparr>name := Some (replaceFirst ''on'' '''' n)\<rparr> else ev
                    | None \<Rightarrow> ev)
         in (None, b\<lparr>EVENTS := EVENTS b @ [ev']\<rparr>)))"

definition clearEvents :: "('cb, 'opt) HTMLBuilder \<Rightarrow> ('cb, 'opt) HTMLBuilder" where
  "clearEvents b = b\<lparr>EVENTS := []\<rparr>"

definition changeSymbolBetweenAttributes ::
  "string \<Rightarrow> ('cb, 'opt) HTMLBuilder \<Rightarrow> ('cb, 'opt) HTMLBuilder" where
  "changeSymbolBetweenAttributes symbol b = b\<lparr>SYMBOL_BETWEEN_ATTRIBUTES := symbol\<rparr>"

fun searchEvents :: "string \<Rightarrow> ('cb, 'opt) event list \<Rightarrow> ('cb, 'opt) event option" where
  "searchEvents n [] = None"
| "searchEvents n (ev # evs) = (if Some n = name ev then Some ev else searchEvents n evs)"

definition searchForEvent :: "('cb, 'opt) HTMLBuilder \<Rightarrow> string \<Rightarrow> ('cb, 'opt) event option" where
  "searchForEvent b n = searchEvents n (EVENTS b)"

subsection \<open>Lines and levels\<close>

definition level :: "string \<Rightarrow> nat" where
  "level line = length (takeWhile (\<lambda>c. c = CHR ''>'') line)"

text \<open>
  The loop of \<open>_extractLinesFrom\<close>: the line at index \<open>i\<close> is trimmed, and spliced out when
  it is empty; either way the index moves on, so the line that takes the place of a
  spliced one is not visited.
\<close>

function extractLoop :: "nat \<Rightarrow> string list \<Rightarrow> string list" where
  "extractLoop i lines =
     (if i < length lines then
        (let lines1 = lines[i := trim (lines ! i)] in
         if length (lines1 ! i) = 0 then extractLoop (i + 1) (splice i lines1)
         else extractLoop (i + 1) lines1)
      else lines)"
  by pat_completeness auto
termination
  by (relation "measure (\<lambda>(i, lines). length lines - i)") (auto simp: splice_def)

declare extractLoop.simps [simp del]

definition extractLinesFrom :: "string \<Rightarrow> string list" where
  "extractLinesFrom template = extractLoop 0 (js_split (trim template) ''\<newline>'')"

definition indentTemplate :: "string \<Rightarrow> nat \<Rightarrow> string" where
  "indentTemplate template indentation =
     trim (fold (\<lambda>line newTemplate. newTemplate @ repeat ''>'' indentation @ trim line @ ''\<newline>'')
             (extractLinesFrom template) [])"

subsection \<open>The regular expression\<close>

text \<open>
  \<open>REGEX\<close> is
  \<^verbatim>\<open>/(\w+)((?:\.[\w-]*)*)*(#[\w-]*)?(?:\((.*)\))?(?:\[(.*)\])?(?:\@([\w;-]*))*/\<close>.
  It has no anchor, and every part after the first group may match the empty string, so
  \<open>exec\<close> succeeds exactly when the line has a word character, the match starts at the
  first one, and no choice is ever undone by what follows it: each group takes what a
  greedy match takes first. The functions below are the groups, each returning its capture
  and the rest of the line.

  Group 2: the longest run of \<open>.\<close> followed by name characters. An iteration of the outer
  star that matches the empty string is rejected, so the group is undefined when the run
  is empty.
\<close>

function classRun :: "string \<Rightarrow> string \<times> string" where
  "classRun [] = ([], [])"
| "classRun (c # r) =
     (if c = CHR ''.''
      then (case classRun (dropWhile is_name r) of
              (m, rest) \<Rightarrow> (c # takeWhile is_name r @ m, rest))
      else ([], c # r))"
  by pat_completeness auto
termination
  by (relation "measure length") (auto simp: less_Suc_eq_le length_dropWhile_le)

text \<open>Group 3: \<open>#\<close> and the name characters after it.\<close>

fun idGroup :: "string \<Rightarrow> string option \<times> string" where
  "idGroup [] = (None, [])"
| "idGroup (c # r) =
     (if c = CHR ''#'' then (Some (c # takeWhile is_name r), dropWhile is_name r)
      else (None, c # r))"

text \<open>
  Groups 4 and 5: an opening bracket, then \<open>(.*)\<close>, then the closing bracket. The dot
  stops at a line terminator, and the greedy star gives back characters until the closing
  bracket matches: the capture ends at the last closing bracket before any line
  terminator. Without one, the optional group matches nothing.
\<close>

definition lastIndexOf :: "char \<Rightarrow> string \<Rightarrow> nat" where
  "lastIndexOf c s = length s - Suc (length (takeWhile (\<lambda>x. x \<noteq> c) (rev s)))"

fun bracketGroup :: "char \<Rightarrow> char \<Rightarrow> string \<Rightarrow> string option \<times> string" where
  "bracketGroup opening closing [] = (None, [])"
| "bracketGroup opening closing (c # r) =
     (let span = takeWhile (\<lambda>x. \<not> is_line_terminator x) r in
      if c = opening \<and> closing \<in> set span
      then (Some (take (lastIndexOf closing span) r), drop (Suc (lastIndexOf closing span)) r)
      else (None, c # r))"

text \<open>
  Group 6: each iteration of the last star is \<open>@\<close> and the event characters after it; the
  capture is that of the last iteration.
\<close>

function eventRun :: "string option \<Rightarrow> string \<Rightarrow> string option \<times> string" where
  "eventRun cap [] = (cap, [])"
| "eventRun cap (c # r) =
     (if c = CHR ''@''
      then eventRun (Some (takeWhile is_event_char r)) (dropWhile is_event_char r)
      else (cap, c # r))"
  by pat_completeness auto
termination
  by (relation "measure (\<lambda>(cap, s). length s)") (auto simp: less_Suc_eq_le length_dropWhile_le)

record matches =
  m1 :: string
  m2 :: "string option"
  m3 :: "string option"
  m4 :: "string option"
  m5 :: "string option"
  m6 :: "string option"

definition REGEX_exec :: "string \<Rightarrow> matches option" where
  "REGEX_exec line =
     (let s = dropWhile (\<lambda>c. \<not> is_word c) line in
      if s = [] then None
      else
        (let g1 = takeWhile is_word s;
             (g2, r2) = classRun (dropWhile is_word s);
             (g3, r3) = idGroup r2;
             (g4, r4) = bracketGroup (CHR ''('') (CHR '')'') r3;
             (g5, r5) = bracketGroup (CHR ''['') (CHR '']'') r4;
             (g6, r6) = eventRun None r5
         in Some \<lparr>m1 = g1, m2 = (if g2 = [] then None else Some g2), m3 = g3, m4 = g4,
                   m5 = g5, m6 = g6\<rparr>))"

subsection \<open>From a line to an element\<close>

text \<open>\<open>/\d/.test(s[0])\<close>: on the empty string, \<open>s[0]\<close> is undefined, which has no digit.\<close>

definition starts_with_digit :: "string \<Rightarrow> bool" where
  "starts_with_digit s = (case s of [] \<Rightarrow> False | c # cs \<Rightarrow> is_digit c)"

text \<open>\<open>v ? f(v) : null\<close> and \<open>v || null\<close>: a capture that is undefined or empty gives null.\<close>

definition truthy :: "string option \<Rightarrow> string option" where
  "truthy v = (if falsy v then None else v)"

definition decodeHTMLEntities :: "platform \<Rightarrow> string \<Rightarrow> string" where
  "decodeHTMLEntities pf content = textareaValue pf content"

definition add_class :: "string \<Rightarrow> ('cb, 'opt) node \<Rightarrow> ('cb, 'opt) node" where
  "add_class c element = (if starts_with_digit c then element else classList_add c element)"

text \<open>
  One attribute entry. \<open>attr.split("=")\<close> has two pieces at least when the entry has an
  \<open>=\<close>; the name is piece 0 and the value piece 1. A piece that is not there would be
  \<open>undefined\<close>.
\<close>

definition add_attribute ::
  "platform \<Rightarrow> string \<Rightarrow> ('cb, 'opt) node \<Rightarrow> error + ('cb, 'opt) node" where
  "add_attribute pf attr0 element =
     (if starts_with_digit attr0 then Inr element
      else
        (let attr = trim attr0 in
         if CHR ''='' \<in> set attr then
           (case js_split attr ''='' of
              n # v # rest \<Rightarrow> setAttribute pf n v element
            | [n] \<Rightarrow> setAttribute pf n ''undefined'' element
            | [] \<Rightarrow> setAttribute pf ''undefined'' ''undefined'' element)
         else setAttribute pf attr '''' element))"

fun add_attributes ::
  "platform \<Rightarrow> string list \<Rightarrow> ('cb, 'opt) node \<Rightarrow> error + ('cb, 'opt) node" where
  "add_attributes pf [] element = Inr element"
| "add_attributes pf (attr # attrs) element =
     (case add_attribute pf attr element of
        Inl e \<Rightarrow> Inl e
      | Inr element' \<Rightarrow> add_attributes pf attrs element')"

definition add_event ::
  "('cb, 'opt) HTMLBuilder \<Rightarrow> string \<Rightarrow> ('cb, 'opt) node \<Rightarrow> ('cb, 'opt) node" where
  "add_event b n element =
     (if starts_with_digit n then element
      else (case searchForEvent b n of
              Some ev \<Rightarrow> addEventListener ev element
            | None \<Rightarrow> element))"

text \<open>
  \<open>_createElementFromLine\<close>, with the identity \<open>u\<close> of the element it creates. It throws
  its own error when there is no tag name, and the platform's when a name is refused.
\<close>

definition parse_error :: "string \<Rightarrow> error" where
  "parse_error line =
     Error (''HTMLBuilder: unable to parse a line: '' @ [CHR 0x22] @ line @ [CHR 0x22])"

definition createElementFromLine ::
  "platform \<Rightarrow> ('cb, 'opt) HTMLBuilder \<Rightarrow> nat \<Rightarrow> string \<Rightarrow> error + ('cb, 'opt) node" where
  "createElementFromLine pf b u line =
     (let matches = REGEX_exec line;
          tagname = (case matches of Some m \<Rightarrow> truthy (Some (m1 m)) | None \<Rightarrow> None);
          classes = (case matches of
                       Some m \<Rightarrow> map_option (\<lambda>g. filter (\<lambda>v. v \<noteq> []) (js_split g ''.'')) (truthy (m2 m))
                     | None \<Rightarrow> None);
          ident = (case matches of
                     Some m \<Rightarrow> map_option (replaceFirst ''#'' '''') (truthy (m3 m))
                   | None \<Rightarrow> None);
          content = (case matches of Some m \<Rightarrow> truthy (m4 m) | None \<Rightarrow> None);
          attrs = (case matches of
                     Some m \<Rightarrow> map_option (\<lambda>g. js_split g (SYMBOL_BETWEEN_ATTRIBUTES b)) (truthy (m5 m))
                   | None \<Rightarrow> None);
          events = (case matches of
                      Some m \<Rightarrow> map_option (\<lambda>g. filter (\<lambda>v. v \<noteq> []) (js_split g '';'')) (truthy (m6 m))
                    | None \<Rightarrow> None)
      in
      case tagname of
        None \<Rightarrow> Inl (parse_error line)
      | Some tag \<Rightarrow>
          if \<not> validElementName pf tag then Inl InvalidCharacterError
          else
            (let element = createElement u tag;
                 element1 = (case classes of Some cl \<Rightarrow> fold add_class cl element | None \<Rightarrow> element)
             in
             case (case attrs of Some al \<Rightarrow> add_attributes pf al element1 | None \<Rightarrow> Inr element1) of
               Inl e \<Rightarrow> Inl e
             | Inr element2 \<Rightarrow>
                (let element3 = (case truthy ident of Some i \<Rightarrow> set_id i element2 | None \<Rightarrow> element2);
                     element4 = (case content of
                                   Some c \<Rightarrow> appendChild element3 (TextNode (decodeHTMLEntities pf c))
                                 | None \<Rightarrow> element3);
                     element5 = (case events of Some el \<Rightarrow> fold (add_event b) el element4
                                 | None \<Rightarrow> element4)
                 in Inr element5)))"

subsection \<open>Rebuilding the tree\<close>

text \<open>
  The pending list \<open>childrenElements\<close> holds pairs of an element and its level.
  \<open>_maxLevel\<close> reads the first pair, which is there whenever the loop of \<open>generate\<close> calls it.
\<close>

fun maxLevel :: "('n \<times> nat) list \<Rightarrow> nat" where
  "maxLevel (child0 # rest) =
     fold (\<lambda>child mx. if snd child > mx then snd child else mx) (child0 # rest) (snd child0)"

definition getIndexOfDeepestElement :: "('n \<times> nat) list \<Rightarrow> nat" where
  "getIndexOfDeepestElement childrenElements =
     (let mx = maxLevel childrenElements in
      if mx = 1 then length childrenElements - 1
      else fold (\<lambda>i lastIndex. if snd (childrenElements ! i) = mx then i else lastIndex)
             [0 ..< length childrenElements] 1)"

definition getIndexOfNearestParentElementOf :: "nat \<Rightarrow> ('n \<times> nat) list \<Rightarrow> nat option" where
  "getIndexOfNearestParentElementOf indexOfDeepest childrenElements =
     (let deepest = snd (childrenElements ! indexOfDeepest) in
      fold (\<lambda>i lastIndex. if int (snd (childrenElements ! i)) = int deepest - 1 then Some i
                            else lastIndex)
        [0 ..< indexOfDeepest] None)"

text \<open>
  One iteration of the \<open>while\<close> loop: the deepest element is prepended to its nearest
  parent in the list, or to the main element, and spliced out of the list.
\<close>

definition reattach ::
  "('cb, 'opt) node \<Rightarrow> (('cb, 'opt) node \<times> nat) list \<Rightarrow>
   ('cb, 'opt) node \<times> (('cb, 'opt) node \<times> nat) list" where
  "reattach mainElement childrenElements =
     (let indexOfDeepest = getIndexOfDeepestElement childrenElements;
          indexOfNearestParent = getIndexOfNearestParentElementOf indexOfDeepest childrenElements
      in
      case indexOfNearestParent of
        Some p \<Rightarrow>
          (mainElement,
           splice indexOfDeepest
             (childrenElements[p := (prepend (fst (childrenElements ! p))
                                       (fst (childrenElements ! indexOfDeepest)),
                                     snd (childrenElements ! p))]))
      | None \<Rightarrow>
          (prepend mainElement (fst (childrenElements ! indexOfDeepest)),
           splice indexOfDeepest childrenElements))"

lemma fold_last_index:
  "\<exists>i<n. P i \<Longrightarrow>
   fold (\<lambda>i l. if P i then i else l) [0 ..< n] a < n \<and> P (fold (\<lambda>i l. if P i then i else l) [0 ..< n] a)"
proof (induction n)
  case 0
  then show ?case by simp
next
  case (Suc n)
  show ?case
  proof (cases "P n")
    case True
    then show ?thesis by simp
  next
    case False
    with Suc.prems have "\<exists>i<n. P i" by (metis less_Suc_eq)
    with Suc.IH False show ?thesis by (simp add: less_Suc_eq)
  qed
qed

lemma fold_max_mem:
  "fold (\<lambda>child mx. if snd child > mx then snd child else mx) xs (m::nat) \<in> insert m (snd ` set xs)"
  by (induction xs arbitrary: m) (auto split: if_splits)

lemma maxLevel_attained:
  assumes "xs \<noteq> []"
  shows "\<exists>i<length xs. snd (xs ! i) = maxLevel xs"
proof -
  from assms obtain c rest where xs: "xs = c # rest" by (cases xs) auto
  have "maxLevel xs \<in> insert (snd c) (snd ` set xs)"
    unfolding xs maxLevel.simps by (rule fold_max_mem)
  then have "maxLevel xs \<in> snd ` set xs" by (auto simp: xs)
  then obtain p where "p \<in> set xs" "snd p = maxLevel xs" by auto
  then show ?thesis by (metis in_set_conv_nth)
qed

lemma getIndexOfDeepestElement_less:
  assumes "xs \<noteq> []"
  shows "getIndexOfDeepestElement xs < length xs"
proof (cases "maxLevel xs = 1")
  case True
  with assms show ?thesis by (simp add: getIndexOfDeepestElement_def)
next
  case False
  from fold_last_index [OF maxLevel_attained [OF assms], of 1] False
  show ?thesis by (simp add: getIndexOfDeepestElement_def)
qed

lemma length_reattach:
  assumes "xs \<noteq> []"
  shows "Suc (length (snd (reattach m xs))) = length xs"
  using getIndexOfDeepestElement_less [OF assms]
  by (auto simp: reattach_def splice_def Let_def split: option.splits)

function reconstruct ::
  "('cb, 'opt) node \<Rightarrow> (('cb, 'opt) node \<times> nat) list \<Rightarrow> ('cb, 'opt) node" where
  "reconstruct mainElement childrenElements =
     (if length childrenElements > 0
      then (case reattach mainElement childrenElements of
              (mainElement', childrenElements') \<Rightarrow> reconstruct mainElement' childrenElements')
      else mainElement)"
  by pat_completeness auto
termination
proof (relation "measure (\<lambda>(m, xs). length xs)")
  show "wf (measure (\<lambda>(m, xs). length xs))" by simp
next
  fix mainElement :: "('cb, 'opt) node"
    and childrenElements x :: "(('cb, 'opt) node \<times> nat) list"
    and xa
  assume "0 < length childrenElements" and "(xa, x) = reattach mainElement childrenElements"
  then have "Suc (length x) = length childrenElements"
    using length_reattach [of childrenElements mainElement] by (metis length_greater_0_conv snd_conv)
  then show "((xa, x), (mainElement, childrenElements)) \<in> measure (\<lambda>(m, xs). length xs)"
    by simp
qed

text \<open>The equation of the loop is unfolded by hand, one iteration at a time.\<close>

declare reconstruct.simps [simp del]

subsection \<open>generate\<close>

text \<open>The main lines: the lines of level 0, each with its index among all the lines.\<close>

definition mainLines :: "string list \<Rightarrow> (string \<times> nat) list" where
  "mainLines lines = map (\<lambda>i. (lines ! i, i)) (filter (\<lambda>i. level (lines ! i) = 0) [0 ..< length lines])"

text \<open>The inner \<open>for\<close> loop: one pair per line of the block, stopping at the first error.\<close>

fun createChildren ::
  "platform \<Rightarrow> ('cb, 'opt) HTMLBuilder \<Rightarrow> string list \<Rightarrow> nat list \<Rightarrow>
   error + (('cb, 'opt) node \<times> nat) list" where
  "createChildren pf b lines [] = Inr []"
| "createChildren pf b lines (k # ks) =
     (case createElementFromLine pf b k (lines ! k) of
        Inl e \<Rightarrow> Inl e
      | Inr child \<Rightarrow>
          (case createChildren pf b lines ks of
             Inl e \<Rightarrow> Inl e
           | Inr childrenElements \<Rightarrow> Inr ((child, level (lines ! k)) # childrenElements)))"

text \<open>
  The outer \<open>for\<close> loop over the main lines. The second component of a main line, which the
  source calls \<open>mainLevel\<close>, is its index; \<open>nextMainLevel\<close> is the index of the next main
  line, or the number of lines. An exception leaves the parent with the main elements
  appended so far.
\<close>

fun generateMains ::
  "platform \<Rightarrow> string list \<Rightarrow> (string \<times> nat) list \<Rightarrow> ('cb, 'opt) HTMLBuilder \<Rightarrow>
   error option \<times> ('cb, 'opt) HTMLBuilder" where
  "generateMains pf lines [] b = (None, b)"
| "generateMains pf lines ((mainLine, mainLevel) # rest) b =
     (let nextMainLevel = (case rest of [] \<Rightarrow> length lines | (l, j) # others \<Rightarrow> j) in
      case createElementFromLine pf b mainLevel mainLine of
        Inl e \<Rightarrow> (Some e, b)
      | Inr mainElement \<Rightarrow>
          (case createChildren pf b lines [mainLevel + 1 ..< nextMainLevel] of
             Inl e \<Rightarrow> (Some e, b)
           | Inr childrenElements \<Rightarrow>
               generateMains pf lines rest
                 (b\<lparr>parent := appendChild (parent b) (reconstruct mainElement childrenElements)\<rparr>)))"

definition generate ::
  "platform \<Rightarrow> string \<Rightarrow> ('cb, 'opt) HTMLBuilder \<Rightarrow> error option \<times> ('cb, 'opt) HTMLBuilder" where
  "generate pf template b =
     (if length (trim template) = 0 then (None, b)
      else (let lines = extractLinesFrom template in generateMains pf lines (mainLines lines) b))"

subsection \<open>A platform for concrete runs\<close>

text \<open>
  \<open>simple_platform\<close> decodes a text to itself, as a browser does when the text has no
  \<open>&\<close> and no \<open><\<close>, and accepts the names that do not begin with a digit (an attribute
  name must not be empty either). The concrete runs below use it, with a \<open>body\<close> element
  without children as the parent.
\<close>

definition simple_platform :: platform where
  "simple_platform =
     \<lparr>textareaValue = (\<lambda>s. s),
      validElementName = (\<lambda>s. \<not> starts_with_digit s),
      validAttributeName = (\<lambda>s. s \<noteq> [] \<and> \<not> starts_with_digit s)\<rparr>"

definition body :: "(unit, unit) node" where
  "body = createElement 0 ''body''"

section \<open>Notions of the statements and of the proofs\<close>

text \<open>A binding named \<open>open\<close>, and a pending list of three elements, for the concrete runs.\<close>

definition click_binding :: "(unit, unit) event" where
  "click_binding = \<lparr>name = Some ''open'', type = Some ''click'', callback = Some (), options = None\<rparr>"

definition pending_example :: "((unit, unit) node \<times> nat) list" where
  "pending_example = [(createElement 1 ''li'', 1), (createElement 2 ''li'', 2), (createElement 3 ''li'', 1)]"

text \<open>
  \<open>first_word_run\<close> is the first run of word characters of a line; \<open>has_tag\<close> says that a
  node is an element with the given tag name.
\<close>

definition first_word_run :: "string \<Rightarrow> string" where
  "first_word_run line = takeWhile is_word (dropWhile (\<lambda>c. \<not> is_word c) line)"

fun has_tag :: "string \<Rightarrow> ('cb, 'opt) node \<Rightarrow> bool" where
  "has_tag t (Element d cs) = (tagName d = t)"
| "has_tag t (TextNode s) = False"

text \<open>
  The template of scenario 2, and the elements \<open>ul\<close> and \<open>li\<close> with the identity \<open>u\<close> and
  the child nodes \<open>cs\<close>, without classes, attributes, id or listeners.
\<close>

definition scenario2 :: string where
  "scenario2 = ''ul\<newline>>li(A)\<newline>>>li(B)\<newline>>li(C)''"

definition li :: "nat \<Rightarrow> ('cb, 'opt) node list \<Rightarrow> ('cb, 'opt) node" where
  "li u cs = Element \<lparr>uid = u, tagName = ''li'', classList = [], attributes = [], elem_id = None,
       listeners = []\<rparr> cs"

definition ul :: "nat \<Rightarrow> ('cb, 'opt) node list \<Rightarrow> ('cb, 'opt) node" where
  "ul u cs = Element \<lparr>uid = u, tagName = ''ul'', classList = [], attributes = [], elem_id = None,
       listeners = []\<rparr> cs"

text \<open>
  A template with two main lines: the block of the first has two lines of level 1, the
  block of the second a line of level 2 followed by a line of level 1.
\<close>

definition two_blocks :: string where
  "two_blocks = ''a\<newline>>b\<newline>>c\<newline>f\<newline>>>g\<newline>>h''"

text \<open>
  \<open>joinLines\<close> puts a line feed between the lines; \<open>marked n line\<close> is the
  trimmed line with \<open>n\<close> markers in front.
\<close>

fun joinLines :: "string list \<Rightarrow> string" where
  "joinLines [] = []"
| "joinLines [x] = x"
| "joinLines (x # y # ys) = x @ CHR 0x0A # joinLines (y # ys)"

definition marked :: "nat \<Rightarrow> string \<Rightarrow> string" where
  "marked n line = repeat ''>'' n @ trim line"

text \<open>
  The element created from line \<open>k\<close> has the identity \<open>k\<close>, so siblings stand in the order of
  their lines when their identities increase from left to right. \<open>ordered n\<close> says so of
  the element children of \<open>n\<close> and of every node below it.

  In the block of a main line, with the levels \<open>ls\<close> of its lines, line \<open>i\<close> is prepended
  to the main element when no earlier line of the block is one level above it
  (\<open>attaches_to_main\<close>). \<open>levels_rise ls\<close> says that the levels of these lines never
  decrease down the block; it holds in particular when every line of level 2 or more
  has an earlier line one level above it, since then only lines of level 1 attach to the
  main element. \<open>blockLevels\<close> lists the levels of the block of each main line, block by
  block as \<open>generate\<close> cuts them.
\<close>

fun ordered :: "('cb, 'opt) node \<Rightarrow> bool" where
  "ordered (Element d cs) =
     (sorted_wrt (<) (map node_uid (filter is_element cs)) \<and> (\<forall>c\<in>set cs. ordered c))"
| "ordered (TextNode t) = True"

definition attaches_to_main :: "nat list \<Rightarrow> nat \<Rightarrow> bool" where
  "attaches_to_main ls i = (\<not> (\<exists>j<i. Suc (ls ! j) = ls ! i))"

definition levels_rise :: "nat list \<Rightarrow> bool" where
  "levels_rise ls =
     (\<forall>k<length ls. \<forall>i<k. attaches_to_main ls i \<and> attaches_to_main ls k \<longrightarrow> ls ! i \<le> ls ! k)"

fun blockLevels :: "string list \<Rightarrow> (string \<times> nat) list \<Rightarrow> nat list list" where
  "blockLevels lines [] = []"
| "blockLevels lines ((mainLine, mainLevel) # rest) =
     (let nextMainLevel = (case rest of [] \<Rightarrow> length lines | (l, j) # others \<Rightarrow> j) in
      map (\<lambda>k. level (lines ! k)) [mainLevel + 1 ..< nextMainLevel] # blockLevels lines rest)"

text \<open>
  \<open>key\<close> is the identity and the level of a pending pair. \<open>pending_inv\<close>: the pending
  elements stand in the order of their lines, have levels of 1 at least, are ordered, and
  each child an element already has comes after every pending element one level below
  that element. \<open>main_inv0\<close>: the children of the main element are ordered nodes.
  \<open>direct\<close>, \<open>rising\<close> and \<open>main_inv\<close> speak of the set of pending keys: a key is direct
  when no pending key before it is one level above; the levels of the direct keys rise;
  the children of the main element are in order and come after every direct key.
\<close>

definition key :: "('cb, 'opt) node \<times> nat \<Rightarrow> nat \<times> nat" where
  "key p = (node_uid (fst p), snd p)"

definition pending_inv :: "(('cb, 'opt) node \<times> nat) list \<Rightarrow> bool" where
  "pending_inv xs \<longleftrightarrow>
     sorted_wrt (<) (map (\<lambda>p. node_uid (fst p)) xs) \<and>
     (\<forall>p\<in>set xs. 1 \<le> snd p \<and> is_element (fst p) \<and> ordered (fst p) \<and>
        (\<forall>c\<in>set (children (fst p)). \<forall>q\<in>set xs.
           snd q = Suc (snd p) \<longrightarrow> node_uid (fst q) < node_uid c))"

definition main_inv0 :: "('cb, 'opt) node \<Rightarrow> bool" where
  "main_inv0 m \<longleftrightarrow> is_element m \<and> (\<forall>c\<in>set (childNodes m). ordered c)"

definition direct :: "(nat \<times> nat) set \<Rightarrow> nat \<times> nat \<Rightarrow> bool" where
  "direct K k \<longleftrightarrow> \<not> (\<exists>r\<in>K. fst r < fst k \<and> Suc (snd r) = snd k)"

definition rising :: "(nat \<times> nat) set \<Rightarrow> bool" where
  "rising K \<longleftrightarrow> (\<forall>q\<in>K. \<forall>r\<in>K. fst q < fst r \<and> direct K q \<and> direct K r \<longrightarrow> snd q \<le> snd r)"

definition main_inv :: "('cb, 'opt) node \<Rightarrow> (nat \<times> nat) set \<Rightarrow> bool" where
  "main_inv m K \<longleftrightarrow>
     sorted_wrt (<) (map node_uid (children m)) \<and>
     (\<forall>c\<in>set (children m). \<forall>q\<in>K. direct K q \<longrightarrow> fst q < node_uid c)"

text \<open>A fresh element: an element with the given identity and no element among its child nodes.\<close>

definition fresh :: "nat \<Rightarrow> ('cb, 'opt) node \<Rightarrow> bool" where
  "fresh u el \<longleftrightarrow> is_element el \<and> node_uid el = u \<and> (\<forall>c\<in>set (childNodes el). \<not> is_element c)"

section \<open>The event registry: validation, the prefix, the lookup\<close>

lemma replaceFirst_prefix: "replaceFirst p r (p @ s) = r @ s"
proof (cases "p @ s")
  case Nil
  then show ?thesis by simp
next
  case (Cons a l)
  have "take (length p) (a # l) = p" "drop (length p) (a # l) = s"
    unfolding Cons [symmetric] by simp_all
  then have "replaceFirst p r (a # l) = r @ s" by (simp del: take_Suc_Cons drop_Suc_Cons)
  then show ?thesis by (simp only: Cons)
qed

lemma searchEvents_append:
  "searchEvents k (xs @ ys) = (case searchEvents k xs of Some e \<Rightarrow> Some e | None \<Rightarrow> searchEvents k ys)"
  by (induction xs) auto

lemma searchEvents_first:
  "searchEvents k evs = Some e \<longleftrightarrow>
     (\<exists>i<length evs. evs ! i = e \<and> name e = Some k \<and> (\<forall>j<i. name (evs ! j) \<noteq> Some k))"
proof (induction evs)
  case Nil
  then show ?case by simp
next
  case (Cons a evs)
  show ?case
  proof (cases "Some k = name a")
    case True
    have "(\<exists>i<length (a # evs). (a # evs) ! i = e \<and> name e = Some k \<and> (\<forall>j<i. name ((a # evs) ! j) \<noteq> Some k))
          \<longleftrightarrow> a = e"
    proof
      assume "\<exists>i<length (a # evs). (a # evs) ! i = e \<and> name e = Some k \<and> (\<forall>j<i. name ((a # evs) ! j) \<noteq> Some k)"
      then obtain i where i: "(a # evs) ! i = e" "\<forall>j<i. name ((a # evs) ! j) \<noteq> Some k" by blast
      have "i = 0"
      proof (rule ccontr)
        assume "i \<noteq> 0"
        then have "0 < i" by simp
        with i(2) have "name ((a # evs) ! 0) \<noteq> Some k" by blast
        with True show False by simp
      qed
      with i(1) show "a = e" by simp
    next
      assume "a = e"
      with True have "(a # evs) ! 0 = e \<and> name e = Some k \<and> (\<forall>j<0. name ((a # evs) ! j) \<noteq> Some k)"
        by simp
      then show "\<exists>i<length (a # evs). (a # evs) ! i = e \<and> name e = Some k \<and> (\<forall>j<i. name ((a # evs) ! j) \<noteq> Some k)"
        by (intro exI [of _ 0]) simp
    qed
    with True show ?thesis by simp
  next
    case False
    have "(\<exists>i<length (a # evs). (a # evs) ! i = e \<and> name e = Some k \<and> (\<forall>j<i. name ((a # evs) ! j) \<noteq> Some k))
          \<longleftrightarrow> (\<exists>i<length evs. evs ! i = e \<and> name e = Some k \<and> (\<forall>j<i. name (evs ! j) \<noteq> Some k))"
      (is "?L \<longleftrightarrow> ?R")
    proof
      assume ?L
      then obtain i where i: "i < length (a # evs)" "(a # evs) ! i = e" "name e = Some k"
        "\<forall>j<i. name ((a # evs) ! j) \<noteq> Some k" by blast
      from i(2,3) False have "i \<noteq> 0" by (cases i) auto
      then obtain i' where i': "i = Suc i'" by (cases i) auto
      have "\<forall>j<i'. name (evs ! j) \<noteq> Some k"
      proof (intro allI impI)
        fix j assume "j < i'"
        then have "Suc j < i" by (simp add: i')
        with i(4) have "name ((a # evs) ! Suc j) \<noteq> Some k" by blast
        then show "name (evs ! j) \<noteq> Some k" by simp
      qed
      with i i' show ?R by (intro exI [of _ i']) simp
    next
      assume ?R
      then obtain i where i: "i < length evs" "evs ! i = e" "name e = Some k"
        "\<forall>j<i. name (evs ! j) \<noteq> Some k" by blast
      have "\<forall>j<Suc i. name ((a # evs) ! j) \<noteq> Some k"
      proof (intro allI impI)
        fix j assume "j < Suc i"
        show "name ((a # evs) ! j) \<noteq> Some k"
        proof (cases j)
          case 0
          with False show ?thesis by auto
        next
          case (Suc j')
          with \<open>j < Suc i\<close> i(4) show ?thesis by simp
        qed
      qed
      with i show ?L by (intro exI [of _ "Suc i"]) simp
    qed
    with False Cons.IH show ?thesis by simp
  qed
qed

text \<open>
  Claim C7. When the binding lacks its name, its type or its callback (the property is
  missing, or is the empty string for the name and the type), \<open>bindEvent\<close> throws an error
  and leaves the builder as it was: nothing is appended to \<open>EVENTS\<close>.
\<close>

theorem bindEvent_missing_field:
  assumes "falsy (name ev) \<or> falsy (type ev) \<or> callback ev = None"
  shows "(\<exists>msg. fst (bindEvent ev b) = Some (Error msg)) \<and> snd (bindEvent ev b) = b
         \<and> EVENTS (snd (bindEvent ev b)) = EVENTS b"
  using assms by (auto simp: bindEvent_def)

theorem bindEvent_missing_field_witness:
  "callback \<lparr>name = Some ''click'', type = Some ''click'', callback = (None :: unit option),
      options = (None :: unit option)\<rparr> = None
   \<and> fst (bindEvent \<lparr>name = Some ''click'', type = Some ''click'', callback = (None :: unit option),
      options = (None :: unit option)\<rparr> (new_HTMLBuilder body))
     = Some (Error ''bindEvent(): cannot bind an event without a callback function.'')
   \<and> EVENTS (snd (bindEvent \<lparr>name = Some ''click'', type = Some ''click'', callback = (None :: unit option),
      options = (None :: unit option)\<rparr> (new_HTMLBuilder body))) = []"
  using bindEvent_missing_field [of "\<lparr>name = Some ''click'', type = Some ''click'',
      callback = (None :: unit option), options = (None :: unit option)\<rparr>" "new_HTMLBuilder body"]
  by (simp add: bindEvent_def falsy_def new_HTMLBuilder_def)

text \<open>
  Claim C8. A binding whose name is \<open>on\<close> followed by \<open>rest\<close> is stored at the end of
  \<open>EVENTS\<close> under the name \<open>rest\<close>. The lookup returns the first entry, front to back, whose
  stored name equals the key; so the lookup of \<open>rest\<close> after the call returns the entry an
  earlier binding already stored under that name, if there is one, and the new binding
  otherwise.
\<close>

theorem bindEvent_on_prefix:
  assumes "name ev = Some (''on'' @ rest)" and "\<not> falsy (type ev)" and "callback ev \<noteq> None"
  shows "fst (bindEvent ev b) = None
       \<and> EVENTS (snd (bindEvent ev b)) = EVENTS b @ [ev\<lparr>name := Some rest\<rparr>]
       \<and> searchForEvent (snd (bindEvent ev b)) rest =
           (case searchForEvent b rest of Some e \<Rightarrow> Some e | None \<Rightarrow> Some (ev\<lparr>name := Some rest\<rparr>))
       \<and> (\<forall>k e. searchForEvent b k = Some e \<longleftrightarrow>
            (\<exists>i<length (EVENTS b). EVENTS b ! i = e \<and> name e = Some k
               \<and> (\<forall>j<i. name (EVENTS b ! j) \<noteq> Some k)))"
proof -
  have r: "replaceFirst ''on'' '''' (''on'' @ rest) = rest"
    using replaceFirst_prefix [of "''on''" "''''" rest] by simp
  have s: "startsWith (''on'' @ rest) ''on''" by (simp add: startsWith_def)
  have nf: "\<not> falsy (name ev)" using assms(1) by (simp add: falsy_def)
  have b: "bindEvent ev b = (None, b\<lparr>EVENTS := EVENTS b @ [ev\<lparr>name := Some rest\<rparr>]\<rparr>)"
    using assms nf r s by (simp add: bindEvent_def del: replaceFirst.simps)
  have c: "\<forall>k e. searchForEvent b k = Some e \<longleftrightarrow>
            (\<exists>i<length (EVENTS b). EVENTS b ! i = e \<and> name e = Some k
               \<and> (\<forall>j<i. name (EVENTS b ! j) \<noteq> Some k))"
    unfolding searchForEvent_def using searchEvents_first by blast
  have d: "searchForEvent (snd (bindEvent ev b)) rest =
           (case searchForEvent b rest of Some e \<Rightarrow> Some e | None \<Rightarrow> Some (ev\<lparr>name := Some rest\<rparr>))"
    by (simp add: b searchForEvent_def searchEvents_append split: option.splits)
  from c d show ?thesis by (simp add: b)
qed

theorem bindEvent_on_prefix_witness:
  "searchForEvent
     (snd (bindEvent \<lparr>name = Some ''onsubmit'', type = Some ''submit'', callback = Some (),
        options = (None :: unit option)\<rparr> (new_HTMLBuilder body))) ''submit''
   = Some \<lparr>name = Some ''submit'', type = Some ''submit'', callback = Some (),
        options = (None :: unit option)\<rparr>"
  using bindEvent_on_prefix [of "\<lparr>name = Some ''onsubmit'', type = Some ''submit'', callback = Some (),
        options = (None :: unit option)\<rparr>" "''submit''" "new_HTMLBuilder body"]
  by (simp add: falsy_def searchForEvent_def new_HTMLBuilder_def)

section \<open>generate and the event registry\<close>

lemma EVENTS_generateMains: "EVENTS (snd (generateMains pf lines mains b)) = EVENTS b"
proof (induction mains arbitrary: b)
  case Nil
  then show ?case by simp
next
  case (Cons a mains)
  obtain mainLine mainLevel where a: "a = (mainLine, mainLevel)" by (cases a)
  show ?case
    by (simp add: a Let_def Cons.IH split: sum.splits)
qed

text \<open>
  Claim C3, as amended. \<open>generate\<close> never writes \<open>EVENTS\<close>: whatever the template, and whether
  it returns or throws, the registry afterwards is the registry before, and every lookup
  gives what it gave. The registry is emptied by \<open>clearEvents\<close>, which the caller calls
  after \<open>generate\<close>.
\<close>

theorem generate_leaves_EVENTS:
  "EVENTS (snd (generate pf template b)) = EVENTS b
   \<and> searchForEvent (snd (generate pf template b)) k = searchForEvent b k
   \<and> EVENTS (clearEvents (snd (generate pf template b))) = []"
  by (simp add: generate_def Let_def EVENTS_generateMains searchForEvent_def clearEvents_def)

text \<open>
  The claim as stated fails: after a binding named \<open>open\<close> was registered, rendering the
  template \<open>div\<close> returns normally and the binding is still found.
\<close>

theorem generate_clears_EVENTS_counterexample:
  "fst (generate simple_platform ''div'' (snd (bindEvent click_binding (new_HTMLBuilder body)))) = None
   \<and> searchForEvent
        (snd (generate simple_platform ''div'' (snd (bindEvent click_binding (new_HTMLBuilder body)))))
        ''open'' = Some click_binding"
  by code_simp

section \<open>The loop of generate terminates\<close>

lemma funpow_reattach:
  "(case_prod reattach ^^ length cs) (m, cs) = (reconstruct m cs, [])"
proof (induction m cs rule: reconstruct.induct)
  case (1 mainElement childrenElements)
  show ?case
  proof (cases "childrenElements = []")
    case True
    then show ?thesis by (simp add: reconstruct.simps)
  next
    case False
    obtain m' cs' where r: "reattach mainElement childrenElements = (m', cs')"
      by (cases "reattach mainElement childrenElements")
    from length_reattach [OF False, of mainElement] r
    have len: "length childrenElements = Suc (length cs')" by simp
    from False r "1.IH" [of m' cs']
    have IH: "(case_prod reattach ^^ length cs') (m', cs') = (reconstruct m' cs', [])" by simp
    have "(case_prod reattach ^^ length childrenElements) (mainElement, childrenElements)
          = (case_prod reattach ^^ length cs') (case_prod reattach (mainElement, childrenElements))"
      unfolding len by (simp only: funpow_Suc_right o_apply)
    also have "\<dots> = (reconstruct m' cs', [])" using r IH by simp
    also have "reconstruct m' cs' = reconstruct mainElement childrenElements"
      using False r by (subst (2) reconstruct.simps) simp
    finally show ?thesis .
  qed
qed

text \<open>
  Claim C9. \<open>reconstruct\<close>, the \<open>while\<close> loop of \<open>generate\<close>, is a total function: its
  recursion was shown to terminate where it is defined. One iteration (\<open>reattach\<close>) on a
  pending list that is not empty leaves a list exactly one pair shorter, and as many
  iterations as the list has pairs leave the empty list and the result of the loop.
\<close>

theorem reconstruct_terminates:
  "(cs \<noteq> [] \<longrightarrow> Suc (length (snd (reattach m cs))) = length cs)
   \<and> (case_prod reattach ^^ length cs) (m, cs) = (reconstruct m cs, [])"
  using length_reattach [of cs m] funpow_reattach [of cs m] by simp

theorem reconstruct_terminates_witness:
  "pending_example \<noteq> []
   \<and> length (snd (reattach (createElement 0 ''ul'') pending_example)) = 2
   \<and> (case_prod reattach ^^ 3) (createElement 0 ''ul'', pending_example)
       = (reconstruct (createElement 0 ''ul'') pending_example, [])"
proof -
  have l: "length pending_example = 3" by (simp add: pending_example_def)
  then have ne: "pending_example \<noteq> []" by auto
  from reconstruct_terminates [of pending_example "createElement 0 ''ul''"] l ne
  show ?thesis by simp
qed

section \<open>The parse error of a line\<close>

lemma REGEX_exec_None_iff: "REGEX_exec line = None \<longleftrightarrow> (\<forall>c\<in>set line. \<not> is_word c)"
proof -
  have "dropWhile (\<lambda>c. \<not> is_word c) line = [] \<longleftrightarrow> (\<forall>c\<in>set line. \<not> is_word c)"
    by (simp add: dropWhile_eq_Nil_conv)
  then show ?thesis
    by (simp add: REGEX_exec_def Let_def split: prod.splits)
qed

lemma REGEX_exec_Some_m1:
  assumes "REGEX_exec line = Some m"
  shows "m1 m = first_word_run line \<and> m1 m \<noteq> []"
proof -
  let ?s = "dropWhile (\<lambda>c. \<not> is_word c) line"
  from assms have ne: "?s \<noteq> []"
    by (auto simp: REGEX_exec_def Let_def split: if_splits)
  then have "is_word (hd ?s)" using hd_dropWhile [of "\<lambda>c. \<not> is_word c" line] by simp
  with ne have "takeWhile is_word ?s \<noteq> []" by (cases ?s) auto
  moreover from assms ne have "m1 m = takeWhile is_word ?s"
    by (auto simp: REGEX_exec_def Let_def split: if_splits prod.splits)
  ultimately show ?thesis by (simp add: first_word_run_def)
qed

lemma has_tag_classList_add [simp]: "has_tag t (classList_add c el) = has_tag t el"
  by (cases el) auto

lemma has_tag_fold_add_class [simp]: "has_tag t (fold add_class cl el) = has_tag t el"
  by (induction cl arbitrary: el) (auto simp: add_class_def)

lemma has_tag_setAttribute: "setAttribute pf n v el = Inr el' \<Longrightarrow> has_tag t el' = has_tag t el"
  by (cases el) (auto split: if_splits)

lemma has_tag_add_attribute: "add_attribute pf a el = Inr el' \<Longrightarrow> has_tag t el' = has_tag t el"
  by (auto simp: add_attribute_def Let_def has_tag_setAttribute split: if_splits list.splits)

lemma has_tag_add_attributes: "add_attributes pf al el = Inr el' \<Longrightarrow> has_tag t el' = has_tag t el"
proof (induction al arbitrary: el)
  case Nil
  then show ?case by simp
next
  case (Cons a al)
  then show ?case
    by (auto split: sum.splits dest: has_tag_add_attribute)
qed

lemma has_tag_set_id [simp]: "has_tag t (set_id i el) = has_tag t el"
  by (cases el) auto

lemma has_tag_appendChild [simp]: "has_tag t (appendChild el c) = has_tag t el"
  by (cases el) auto

lemma has_tag_addEventListener [simp]: "has_tag t (addEventListener ev el) = has_tag t el"
  by (cases el) auto

lemma has_tag_fold_add_event [simp]: "has_tag t (fold (add_event b) ns el) = has_tag t el"
  by (induction ns arbitrary: el) (auto simp: add_event_def split: option.splits)

lemma createElementFromLine_no_match:
  "REGEX_exec line = None \<Longrightarrow> createElementFromLine pf b u line = Inl (parse_error line)"
  by (simp add: createElementFromLine_def)

lemma setAttribute_Inl: "setAttribute pf n v el = Inl e \<Longrightarrow> e = InvalidCharacterError"
  by (cases el) (auto split: if_splits)

lemma add_attribute_Inl: "add_attribute pf a el = Inl e \<Longrightarrow> e = InvalidCharacterError"
  by (auto simp: add_attribute_def Let_def split: if_splits list.splits dest: setAttribute_Inl)

lemma add_attributes_Inl: "add_attributes pf al el = Inl e \<Longrightarrow> e = InvalidCharacterError"
proof (induction al arbitrary: el)
  case Nil
  then show ?case by simp
next
  case (Cons a al)
  then show ?case
    by (auto split: sum.splits dest: add_attribute_Inl)
qed

lemma createElementFromLine_match:
  assumes "REGEX_exec line = Some m"
  shows "createElementFromLine pf b u line = Inl InvalidCharacterError
         \<or> (\<exists>el. createElementFromLine pf b u line = Inr el \<and> has_tag (first_word_run line) el)"
proof -
  from REGEX_exec_Some_m1 [OF assms] have t: "truthy (Some (m1 m)) = Some (first_word_run line)"
    by (auto simp: truthy_def falsy_def)
  define classes where
    "classes = map_option (\<lambda>g. filter (\<lambda>v. v \<noteq> []) (js_split g ''.'')) (truthy (m2 m))"
  define attrs where
    "attrs = map_option (\<lambda>g. js_split g (SYMBOL_BETWEEN_ATTRIBUTES b)) (truthy (m5 m))"
  define element1 :: "('a, 'b) node" where
    "element1 = (case classes of Some cl \<Rightarrow> fold add_class cl (createElement u (first_word_run line))
                 | None \<Rightarrow> createElement u (first_word_run line))"
  define step2 where
    "step2 = (case attrs of Some al \<Rightarrow> add_attributes pf al element1 | None \<Rightarrow> Inr element1)"
  have e1: "has_tag (first_word_run line) element1"
    by (simp add: element1_def split: option.splits)
  have unf: "createElementFromLine pf b u line =
    (if \<not> validElementName pf (first_word_run line) then Inl InvalidCharacterError
     else case step2 of
            Inl e \<Rightarrow> Inl e
          | Inr element2 \<Rightarrow>
             (let element3 = (case truthy (map_option (replaceFirst ''#'' []) (truthy (m3 m))) of
                                Some i \<Rightarrow> set_id i element2 | None \<Rightarrow> element2);
                  element4 = (case truthy (m4 m) of
                                Some c \<Rightarrow> appendChild element3 (TextNode (decodeHTMLEntities pf c))
                              | None \<Rightarrow> element3);
                  element5 = (case map_option (\<lambda>g. filter (\<lambda>v. v \<noteq> []) (js_split g '';'')) (truthy (m6 m)) of
                                Some el \<Rightarrow> fold (add_event b) el element4
                              | None \<Rightarrow> element4)
              in Inr element5))"
    unfolding createElementFromLine_def Let_def assms option.case t step2_def element1_def
      classes_def attrs_def by (rule refl)
  show ?thesis
  proof (cases "validElementName pf (first_word_run line)")
    case False
    then show ?thesis by (simp add: unf)
  next
    case True
    show ?thesis
    proof (cases step2)
      case (Inl e)
      then have "e = InvalidCharacterError"
        by (auto simp: step2_def split: option.splits dest: add_attributes_Inl)
      with Inl True show ?thesis by (simp add: unf)
    next
      case (Inr element2)
      then have "has_tag (first_word_run line) element2"
        using e1 by (auto simp: step2_def split: option.splits dest: has_tag_add_attributes)
      with Inr True show ?thesis
        by (simp add: unf Let_def split: option.splits)
    qed
  qed
qed

text \<open>
  Claim C10. \<open>_createElementFromLine\<close> throws its parse error exactly when the line has no
  word character. On a line with a word character it throws no error of its own: it
  returns an element whose tag is the first run of word characters of the line, wherever
  that run stands, unless the platform refuses a name (\<open>InvalidCharacterError\<close>).
\<close>

theorem createElementFromLine_parse_error_iff:
  "(createElementFromLine pf b u line = Inl (parse_error line)) = (\<forall>c\<in>set line. \<not> is_word c)
   \<and> ((\<exists>c\<in>set line. is_word c) \<longrightarrow>
        createElementFromLine pf b u line = Inl InvalidCharacterError
        \<or> (\<exists>el. createElementFromLine pf b u line = Inr el \<and> has_tag (first_word_run line) el))"
proof (cases "REGEX_exec line")
  case None
  with REGEX_exec_None_iff [of line] createElementFromLine_no_match [OF None, of pf b u]
  show ?thesis by simp
next
  case (Some m)
  with REGEX_exec_None_iff [of line] have w: "\<not> (\<forall>c\<in>set line. \<not> is_word c)" by simp
  have r: "createElementFromLine pf b u line = Inl InvalidCharacterError
        \<or> (\<exists>el. createElementFromLine pf b u line = Inr el \<and> has_tag (first_word_run line) el)"
    by (rule createElementFromLine_match [OF Some])
  then have "createElementFromLine pf b u line \<noteq> Inl (parse_error line)"
    by (auto simp: parse_error_def)
  with w r show ?thesis by simp
qed

lemma createElementFromLine_dot_foo: "createElementFromLine simple_platform (new_HTMLBuilder body) 0 ''.foo''
     = Inr (createElement 0 ''foo'')" by code_simp

lemma createElementFromLine_gt_li: "createElementFromLine simple_platform (new_HTMLBuilder body) 1 ''>li''
     = Inr (createElement 1 ''li'')" by code_simp

theorem createElementFromLine_parse_error_iff_witness:
  "createElementFromLine simple_platform (new_HTMLBuilder body) 0 ''>.#()[]@''
     = Inl (parse_error ''>.#()[]@'')
   \<and> createElementFromLine simple_platform (new_HTMLBuilder body) 0 ''.foo''
     = Inr (createElement 0 ''foo'')
   \<and> createElementFromLine simple_platform (new_HTMLBuilder body) 1 ''>li''
     = Inr (createElement 1 ''li'')"
proof -
  have a: "\<forall>c\<in>set ''>.#()[]@''. \<not> is_word c"
    by (simp add: is_word_def)
  from createElementFromLine_parse_error_iff [of simple_platform "new_HTMLBuilder body" 0 "''>.#()[]@''"]
  have "(createElementFromLine simple_platform (new_HTMLBuilder body) 0 ''>.#()[]@''
     = Inl (parse_error ''>.#()[]@'')) = (\<forall>c\<in>set ''>.#()[]@''. \<not> is_word c)"
    by (rule conjunct1)
  with a have "createElementFromLine simple_platform (new_HTMLBuilder body) 0 ''>.#()[]@''
     = Inl (parse_error ''>.#()[]@'')" by (rule iffD2 [rotated])
  then show ?thesis using createElementFromLine_dot_foo createElementFromLine_gt_li by simp
qed

section \<open>Concrete runs of generate\<close>

lemma scenario2_lines:
  "extractLinesFrom scenario2 = [''ul'', ''>li(A)'', ''>>li(B)'', ''>li(C)'']"
  by code_simp

lemma scenario2_trim: "length (trim scenario2) \<noteq> 0"
  by code_simp

lemma scenario2_mainLines:
  "mainLines [''ul'', ''>li(A)'', ''>>li(B)'', ''>li(C)''] = [(''ul'', 0)]"
  by code_simp

lemma scenario2_exec:
  "REGEX_exec ''ul'' = Some \<lparr>m1 = ''ul'', m2 = None, m3 = None, m4 = None, m5 = None, m6 = None\<rparr>"
  "REGEX_exec ''>li(A)'' = Some \<lparr>m1 = ''li'', m2 = None, m3 = None, m4 = Some ''A'', m5 = None, m6 = None\<rparr>"
  "REGEX_exec ''>>li(B)'' = Some \<lparr>m1 = ''li'', m2 = None, m3 = None, m4 = Some ''B'', m5 = None, m6 = None\<rparr>"
  "REGEX_exec ''>li(C)'' = Some \<lparr>m1 = ''li'', m2 = None, m3 = None, m4 = Some ''C'', m5 = None, m6 = None\<rparr>"
  by code_simp+

lemma scenario2_levels:
  "level ''>li(A)'' = 1" "level ''>>li(B)'' = 2" "level ''>li(C)'' = 1"
  by code_simp+

lemma scenario2_reconstruct:
  "reconstruct (ul 0 []) [(li 1 [TextNode ''A''], 1), (li 2 [TextNode ''B''], 2), (li 3 [TextNode ''C''], 1)]
   = ul 0 [li 1 [li 2 [TextNode ''B''], TextNode ''A''], li 3 [TextNode ''C'']]"
proof -
  have u: "[0 ..< 3] = [0, 1, 2]" "[0 ..< 2] = [0, 1]" "[0 ..< 1] = [0]" by code_simp+
  show ?thesis
    by (simp add: reconstruct.simps reattach_def getIndexOfDeepestElement_def
        getIndexOfNearestParentElementOf_def splice_def li_def ul_def Let_def u)
qed

lemma scenario2_elements:
  assumes "validElementName pf ''ul''" and "validElementName pf ''li''"
    and "textareaValue pf ''A'' = ''A''" and "textareaValue pf ''B'' = ''B''"
    and "textareaValue pf ''C'' = ''C''"
  shows "createElementFromLine pf b u ''ul'' = Inr (ul u [])"
    and "createElementFromLine pf b u ''>li(A)'' = Inr (li u [TextNode ''A''])"
    and "createElementFromLine pf b u ''>>li(B)'' = Inr (li u [TextNode ''B''])"
    and "createElementFromLine pf b u ''>li(C)'' = Inr (li u [TextNode ''C''])"
  using assms
  by (simp_all add: createElementFromLine_def scenario2_exec truthy_def falsy_def
      decodeHTMLEntities_def li_def ul_def)

text \<open>
  Claim C2. On a platform that accepts the names \<open>ul\<close> and \<open>li\<close> and decodes \<open>A\<close>, \<open>B\<close> and
  \<open>C\<close> to themselves, rendering the template of scenario 2 into a parent without children
  returns normally and leaves the parent with exactly one child: the \<open>ul\<close> of line 0, whose
  children are the \<open>li\<close> of line 1 (text \<open>A\<close>) and the \<open>li\<close> of line 3 (text \<open>C\<close>), in this
  order; the \<open>li\<close> of line 1 has one element child, the \<open>li\<close> of line 2 (text \<open>B\<close>), which
  \<open>prepend\<close> put before the text node \<open>A\<close>.
\<close>

theorem generate_scenario2:
  assumes "validElementName pf ''ul''" and "validElementName pf ''li''"
    and "textareaValue pf ''A'' = ''A''" and "textareaValue pf ''B'' = ''B''"
    and "textareaValue pf ''C'' = ''C''"
    and "parent b = Element d []"
  shows "generate pf scenario2 b =
     (None, b\<lparr>parent := Element d
        [ul 0 [li 1 [li 2 [TextNode ''B''], TextNode ''A''], li 3 [TextNode ''C'']]]\<rparr>)"
proof -
  have u: "[0 + 1 ..< 4] = [1, 2, 3]" by code_simp
  have c: "createChildren pf b [''ul'', ''>li(A)'', ''>>li(B)'', ''>li(C)''] [1, 2, 3]
    = Inr [(li 1 [TextNode ''A''], 1), (li 2 [TextNode ''B''], 2), (li 3 [TextNode ''C''], 1)]"
    by (simp add: scenario2_elements [OF assms(1-5)] scenario2_levels)
  have len: "length [''ul'', ''>li(A)'', ''>>li(B)'', ''>li(C)''] = 4" by simp
  have g: "generateMains pf [''ul'', ''>li(A)'', ''>>li(B)'', ''>li(C)''] [(''ul'', 0)] b =
     (None, b\<lparr>parent := appendChild (parent b)
        (ul 0 [li 1 [li 2 [TextNode ''B''], TextNode ''A''], li 3 [TextNode ''C'']])\<rparr>)"
    by (simp only: generateMains.simps Let_def list.case prod.case sum.case len u c
        scenario2_elements(1) [OF assms(1-5)] scenario2_reconstruct)
  from scenario2_trim have "generate pf scenario2 b =
      generateMains pf [''ul'', ''>li(A)'', ''>>li(B)'', ''>li(C)''] [(''ul'', 0)] b"
    by (simp only: generate_def scenario2_lines scenario2_mainLines Let_def if_False)
  with g assms(6) show ?thesis by simp
qed

theorem generate_scenario2_witness:
  "generate simple_platform scenario2 (new_HTMLBuilder body) =
     (None, (new_HTMLBuilder body)\<lparr>parent := appendChild body
        (ul 0 [li 1 [li 2 [TextNode ''B''], TextNode ''A''], li 3 [TextNode ''C'']])\<rparr>)"
  using generate_scenario2 [of simple_platform "new_HTMLBuilder body"
      "\<lparr>uid = 0, tagName = ''body'', classList = [], attributes = [], elem_id = None, listeners = []\<rparr>"]
  by (simp add: simple_platform_def starts_with_digit_def is_digit_def new_HTMLBuilder_def body_def)

text \<open>
  Claim C4 fails on the code. The loop of \<open>_extractLinesFrom\<close> moves its index on after
  a splice, so the line after a removed blank line is neither trimmed nor tested: of two
  blank lines in a row the second stays, as an empty line of level 0, and \<open>generate\<close> throws
  the parse error on it after appending the \<open>ul\<close> without its child; the template without
  the blank lines renders \<open>ul\<close> with its \<open>li\<close>. After one blank line, an indented line keeps
  its indentation and so has level 0.
\<close>

theorem generate_blank_lines_differ:
  "generate simple_platform ''ul\<newline>\<newline>\<newline>>li'' (new_HTMLBuilder body) =
     (Some (parse_error ''''), (new_HTMLBuilder body)\<lparr>parent := appendChild body (ul 0 [])\<rparr>)
   \<and> generate simple_platform ''ul\<newline>>li'' (new_HTMLBuilder body) =
     (None, (new_HTMLBuilder body)\<lparr>parent := appendChild body (ul 0 [li 1 []])\<rparr>)
   \<and> extractLinesFrom ''ul\<newline>\<newline>\<newline>>li'' = [''ul'', '''', ''>li'']
   \<and> extractLinesFrom ''ul\<newline>\<newline>  >li'' = [''ul'', ''  >li'']"
  by code_simp

text \<open>
  Claim C5 fails on the code. The value of an attribute is piece 1 of \<open>attr.split("=")\<close>,
  the text between the first and the second \<open>=\<close>: the entry \<open>a=b=c\<close> stores \<open>b\<close>, not \<open>b=c\<close>.
  The bare entry \<open>disabled\<close> stores the empty value.
\<close>

theorem createElementFromLine_second_equals:
  "createElementFromLine simple_platform (new_HTMLBuilder body) 0 ''div[a=b=c;disabled]'' =
     Inr (Element \<lparr>uid = 0, tagName = ''div'', classList = [],
            attributes = [(''a'', ''b''), (''disabled'', '''')], elem_id = None, listeners = []\<rparr> [])"
  by code_simp

section \<open>Indenting a template\<close>

lemma newline_char: "''\<newline>'' = [CHR 0x0A]"
  by simp

lemma is_space_newline: "is_space (CHR 0x0A)"
  by (simp add: is_space_def)

lemma not_is_space_gt: "\<not> is_space (CHR ''>'')"
  by (simp add: is_space_def)

lemma trim_fixed:
  assumes "x \<noteq> []" and "\<not> is_space (hd x)" and "\<not> is_space (last x)"
  shows "trim x = x"
proof -
  from assms(1,2) have a: "dropWhile is_space x = x" by (cases x) auto
  from assms(1,3) have "dropWhile is_space (rev x) = rev x"
    by (cases "rev x") (auto simp: last_rev [symmetric] simp del: last_rev)
  with a show ?thesis by (simp add: trim_def)
qed

lemma trim_ends:
  assumes "trim s \<noteq> []"
  shows "\<not> is_space (hd (trim s)) \<and> \<not> is_space (last (trim s))"
proof -
  let ?a = "dropWhile is_space s"
  let ?b = "dropWhile is_space (rev ?a)"
  from assms have b: "?b \<noteq> []" by (simp add: trim_def)
  then have hb: "\<not> is_space (hd ?b)" using hd_dropWhile [of is_space "rev ?a"] by simp
  from b have l: "last (trim s) = hd ?b" by (simp add: trim_def last_rev)
  have a: "?a \<noteq> []"
  proof
    assume "?a = []"
    then have "?b = dropWhile is_space (rev [])"
      by (rule arg_cong [where f = "\<lambda>z. dropWhile is_space (rev z)"])
    with b show False by simp
  qed
  then have ha: "\<not> is_space (hd ?a)" using hd_dropWhile [of is_space s] by simp
  have "\<exists>n. ?b = drop n (rev ?a)" by (metis dropWhile_eq_drop)
  then obtain n where n: "?b = drop n (rev ?a)" ..
  then have "rev ?b = take (length ?a - n) ?a" by (simp add: rev_drop)
  moreover from b have "rev ?b \<noteq> []" by simp
  ultimately have "hd (rev ?b) = hd ?a" by (metis hd_take take_eq_Nil not_gr_zero)
  with ha l hb show ?thesis by (simp add: trim_def)
qed

lemma trim_idem: "trim (trim s) = trim s"
proof (cases "trim s = []")
  case True
  have "trim [] = []" by (simp add: trim_def)
  with True show ?thesis by simp
next
  case False
  with trim_ends [OF False] show ?thesis by (intro trim_fixed) auto
qed

lemma set_trim: "set (trim s) \<subseteq> set s"
proof -
  have "set (trim s) \<subseteq> set (dropWhile is_space s)"
    unfolding trim_def using set_dropWhileD [of _ is_space "rev (dropWhile is_space s)"] by auto
  also have "\<dots> \<subseteq> set s" using set_dropWhileD [of _ is_space s] by auto
  finally show ?thesis .
qed

lemma trim_snoc_newline:
  assumes "x \<noteq> []" and "\<not> is_space (hd x)" and "\<not> is_space (last x)"
  shows "trim (x @ [CHR 0x0A]) = x"
proof -
  from assms(1,2) have a: "dropWhile is_space (x @ [CHR 0x0A]) = x @ [CHR 0x0A]" by (cases x) auto
  from assms(1,3) have "dropWhile is_space (rev x) = rev x"
    by (cases "rev x") (auto simp: last_rev [symmetric] simp del: last_rev)
  with a is_space_newline show ?thesis by (simp add: trim_def)
qed

lemma splitOn_char:
  "splitOn [c] cur (x # xs) =
     (if x = c then cur # splitOn [c] [] xs else splitOn [c] (cur @ [x]) xs)"
  by simp

lemma splitOn_no_sep: "c \<notin> set x \<Longrightarrow> splitOn [c] cur x = [cur @ x]"
proof (induction x arbitrary: cur)
  case Nil
  then show ?case by simp
next
  case (Cons a x)
  from Cons.prems have "a \<noteq> c" "c \<notin> set x" by auto
  with Cons.IH [of "cur @ [a]"] show ?case
    by (simp only: splitOn_char) simp
qed

lemma splitOn_first:
  "c \<notin> set x \<Longrightarrow> splitOn [c] cur (x @ c # rest) = (cur @ x) # splitOn [c] [] rest"
proof (induction x arbitrary: cur)
  case Nil
  then show ?case by simp
next
  case (Cons a x)
  from Cons.prems have "a \<noteq> c" "c \<notin> set x" by auto
  with Cons.IH [of "cur @ [a]"] show ?case
    by (simp only: append_Cons splitOn_char) simp
qed

lemma splitOn_joinLines:
  assumes "xs \<noteq> []" and "\<forall>x\<in>set xs. CHR 0x0A \<notin> set x"
  shows "splitOn [CHR 0x0A] [] (joinLines xs) = xs"
  using assms
proof (induction xs rule: joinLines.induct)
  case 1
  then show ?case by simp
next
  case (2 x)
  then show ?case using splitOn_no_sep [of "CHR 0x0A" x "[]"] by simp
next
  case (3 x y ys)
  then have "splitOn [CHR 0x0A] [] (joinLines (y # ys)) = y # ys" by simp
  moreover from 3 have "CHR 0x0A \<notin> set x" by simp
  ultimately show ?case
    using splitOn_first [of "CHR 0x0A" x "[]" "joinLines (y # ys)"] by simp
qed

lemma splitOn_elements:
  "c \<notin> set cur \<Longrightarrow> \<forall>x\<in>set (splitOn [c] cur s). c \<notin> set x"
proof (induction s arbitrary: cur)
  case Nil
  then show ?case by simp
next
  case (Cons a s)
  show ?case
  proof (cases "a = c")
    case True
    with Cons.IH [of "[]"] Cons.prems show ?thesis by (simp only: splitOn_char) simp
  next
    case False
    with Cons.IH [of "cur @ [a]"] Cons.prems show ?thesis by (simp only: splitOn_char) simp
  qed
qed

lemma concat_lines:
  "xs \<noteq> [] \<Longrightarrow> concat (map (\<lambda>x. x @ [CHR 0x0A]) xs) = joinLines xs @ [CHR 0x0A]"
  by (induction xs rule: joinLines.induct) simp_all

lemma joinLines_ends:
  assumes "xs \<noteq> []" and "\<forall>x\<in>set xs. x \<noteq> []"
  shows "joinLines xs \<noteq> [] \<and> hd (joinLines xs) = hd (hd xs) \<and> last (joinLines xs) = last (last xs)"
  using assms by (induction xs rule: joinLines.induct) auto

lemma extractLoop_fixed:
  "\<forall>x\<in>set xs. trim x = x \<and> x \<noteq> [] \<Longrightarrow> extractLoop i xs = xs"
proof (induction i xs rule: extractLoop.induct)
  case (1 i lines)
  show ?case
  proof (cases "i < length lines")
    case False
    then show ?thesis by (subst extractLoop.simps) simp
  next
    case True
    with "1.prems" have t: "trim (lines ! i) = lines ! i" "lines ! i \<noteq> []" by auto
    then have u: "lines[i := trim (lines ! i)] = lines" by simp
    from True t u "1.prems" "1.IH"(2) [of "lines[i := trim (lines ! i)]"]
    have "extractLoop (i + 1) lines = lines" by simp
    with True t u show ?thesis by (subst extractLoop.simps) (simp add: Let_def)
  qed
qed

lemma set_splice: "set (splice i xs) \<subseteq> set xs"
  unfolding splice_def using set_take_subset [of i xs] set_drop_subset [of "Suc i" xs] by auto

lemma extractLoop_preserves:
  assumes "\<And>x. Q x \<Longrightarrow> Q (trim x)"
  shows "\<forall>x\<in>set xs. Q x \<Longrightarrow> \<forall>x\<in>set (extractLoop i xs). Q x"
proof (induction i xs rule: extractLoop.induct)
  case (1 i lines)
  show ?case
  proof (cases "i < length lines")
    case False
    with "1.prems" show ?thesis by (subst extractLoop.simps) simp
  next
    case True
    define lines1 where "lines1 = lines[i := trim (lines ! i)]"
    from True "1.prems" have "Q (lines ! i)" by simp
    then have "Q (trim (lines ! i))" by (rule assms)
    with "1.prems" have q1: "\<forall>x\<in>set lines1. Q x"
      unfolding lines1_def using set_update_subset_insert [of lines i "trim (lines ! i)"] by auto
    then have q2: "\<forall>x\<in>set (splice i lines1). Q x" using set_splice [of i lines1] by auto
    show ?thesis
    proof (cases "length (lines1 ! i) = 0")
      case True
      from "1.IH"(1) [OF \<open>i < length lines\<close> lines1_def True q2]
      have "\<forall>x\<in>set (extractLoop (i + 1) (splice i lines1)). Q x" .
      with True \<open>i < length lines\<close> show ?thesis
        by (subst extractLoop.simps) (simp add: Let_def lines1_def)
    next
      case False
      from "1.IH"(2) [OF \<open>i < length lines\<close> lines1_def False q1]
      have "\<forall>x\<in>set (extractLoop (i + 1) lines1). Q x" .
      with False \<open>i < length lines\<close> show ?thesis
        by (subst extractLoop.simps) (simp add: Let_def lines1_def)
    qed
  qed
qed

lemma extractLinesFrom_no_newline: "\<forall>l\<in>set (extractLinesFrom t). CHR 0x0A \<notin> set l"
proof -
  have "\<forall>x\<in>set (js_split (trim t) ''\<newline>''). CHR 0x0A \<notin> set x"
    using splitOn_elements [of "CHR 0x0A" "[]" "trim t"] by (simp add: js_split_def)
  then show ?thesis
    unfolding extractLinesFrom_def
    by (rule extractLoop_preserves [rotated]) (use set_trim in blast)
qed

lemma extractLinesFrom_Nil: "extractLinesFrom [] = []"
  by code_simp

lemma fold_append_concat: "fold (\<lambda>line acc. acc @ f line) xs a = a @ concat (map f xs)"
  by (induction xs arbitrary: a) simp_all

lemma repeat_gt: "repeat ''>'' n = replicate n (CHR ''>'')"
  by (induction n) (simp_all add: repeat_def)

lemma marked_props:
  assumes "1 \<le> n"
  shows "marked n l \<noteq> []" and "\<not> is_space (hd (marked n l))" and "\<not> is_space (last (marked n l))"
proof -
  from assms obtain k where n: "n = Suc k" by (cases n) auto
  show a: "marked n l \<noteq> []" by (simp add: marked_def repeat_gt n)
  show "\<not> is_space (hd (marked n l))" by (simp add: marked_def repeat_gt n not_is_space_gt)
  show "\<not> is_space (last (marked n l))"
  proof (cases "trim l = []")
    case True
    then have "marked n l = replicate n (CHR ''>'')" by (simp add: marked_def repeat_gt)
    then show ?thesis by (simp add: n not_is_space_gt)
  next
    case False
    then have "last (marked n l) = last (trim l)" by (simp add: marked_def)
    with trim_ends [OF False] show ?thesis by simp
  qed
qed

lemma trim_marked: "1 \<le> n \<Longrightarrow> trim (marked n l) = marked n l"
  by (intro trim_fixed marked_props)

lemma marked_no_newline: "CHR 0x0A \<notin> set l \<Longrightarrow> CHR 0x0A \<notin> set (marked n l)"
  using set_trim [of l] by (auto simp: marked_def repeat_gt)

lemma indentTemplate_concat:
  "indentTemplate t n = trim (concat (map (\<lambda>x. x @ [CHR 0x0A]) (map (marked n) (extractLinesFrom t))))"
  by (simp add: indentTemplate_def fold_append_concat marked_def comp_def)

lemma indentTemplate_joinLines:
  assumes "extractLinesFrom t \<noteq> []" and "1 \<le> n"
  shows "indentTemplate t n = joinLines (map (marked n) (extractLinesFrom t))"
    and "trim (joinLines (map (marked n) (extractLinesFrom t))) = joinLines (map (marked n) (extractLinesFrom t))"
proof -
  let ?M = "map (marked n) (extractLinesFrom t)"
  from assms(1) have ne: "?M \<noteq> []" by simp
  have el: "\<forall>x\<in>set ?M. x \<noteq> []" using marked_props(1) [OF assms(2)] by auto
  from joinLines_ends [OF ne el]
  have j: "joinLines ?M \<noteq> []" "hd (joinLines ?M) = hd (hd ?M)" "last (joinLines ?M) = last (last ?M)"
    by simp_all
  have "hd ?M \<in> set ?M" "last ?M \<in> set ?M"
    by (rule hd_in_set [OF ne], rule last_in_set [OF ne])
  then obtain l1 l2 where "hd ?M = marked n l1" "last ?M = marked n l2" by auto
  with j marked_props(2,3) [OF assms(2)]
  have e: "\<not> is_space (hd (joinLines ?M))" "\<not> is_space (last (joinLines ?M))" by simp_all
  show "indentTemplate t n = joinLines ?M"
    unfolding indentTemplate_concat concat_lines [OF ne]
    by (rule trim_snoc_newline [OF j(1) e])
  show "trim (joinLines ?M) = joinLines ?M"
    by (rule trim_fixed [OF j(1) e])
qed

lemma extractLinesFrom_indentTemplate:
  assumes "1 \<le> n"
  shows "extractLinesFrom (indentTemplate t n) = map (marked n) (extractLinesFrom t)"
proof (cases "extractLinesFrom t = []")
  case True
  then have "indentTemplate t n = trim []" by (simp add: indentTemplate_concat)
  also have "trim [] = []" by (simp add: trim_def)
  finally show ?thesis using True extractLinesFrom_Nil by simp
next
  case False
  let ?M = "map (marked n) (extractLinesFrom t)"
  from False have ne: "?M \<noteq> []" by simp
  have nl: "\<forall>x\<in>set ?M. CHR 0x0A \<notin> set x"
    using extractLinesFrom_no_newline [of t] marked_no_newline by auto
  have fx: "\<forall>x\<in>set ?M. trim x = x \<and> x \<noteq> []"
    using trim_marked [OF assms] marked_props(1) [OF assms] by auto
  have "extractLinesFrom (indentTemplate t n) = extractLoop 0 (js_split (joinLines ?M) ''\<newline>'')"
    unfolding extractLinesFrom_def [of "indentTemplate t n"]
    by (simp only: indentTemplate_joinLines [OF False assms])
  also have "js_split (joinLines ?M) ''\<newline>'' = ?M"
    using splitOn_joinLines [OF ne nl] by (simp add: js_split_def)
  also have "extractLoop 0 ?M = ?M" by (rule extractLoop_fixed [OF fx])
  finally show ?thesis .
qed

lemma marked_marked: "1 \<le> a \<Longrightarrow> marked b (marked a l) = marked (a + b) l"
  using trim_marked [of a l]
  by (simp add: marked_def repeat_gt replicate_add [symmetric] add.commute del: replicate_add)

lemma indentTemplate_indentTemplate:
  assumes "1 \<le> a"
  shows "indentTemplate (indentTemplate t a) b = indentTemplate t (a + b)"
proof -
  have "map (marked b) (extractLinesFrom (indentTemplate t a))
        = map (marked (a + b)) (extractLinesFrom t)"
    by (simp add: extractLinesFrom_indentTemplate [OF assms] marked_marked [OF assms])
  then show ?thesis
    by (simp only: indentTemplate_concat [of _ b] indentTemplate_concat [of t "a + b"])
qed

text \<open>
  Claim C6. Indenting a template by one marker twice gives the same string as indenting it
  by two markers, hence the same lines: the lines of the template, each trimmed and with
  two more markers in front, so each with a level two above that of its trimmed line.
\<close>

theorem indentTemplate_twice:
  "indentTemplate (indentTemplate t 1) 1 = indentTemplate t 2
   \<and> extractLinesFrom (indentTemplate (indentTemplate t 1) 1) = extractLinesFrom (indentTemplate t 2)
   \<and> extractLinesFrom (indentTemplate t 2) = map (\<lambda>line. ''>>'' @ trim line) (extractLinesFrom t)
   \<and> map level (extractLinesFrom (indentTemplate (indentTemplate t 1) 1))
       = map (\<lambda>line. 2 + level (trim line)) (extractLinesFrom t)"
proof -
  have a: "indentTemplate (indentTemplate t 1) 1 = indentTemplate t 2"
    using indentTemplate_indentTemplate [of 1 t 1] by (simp add: numeral_2_eq_2)
  have m: "marked 2 = (\<lambda>line. ''>>'' @ trim line)"
    by (rule ext) (simp add: marked_def repeat_def numeral_2_eq_2)
  have b: "extractLinesFrom (indentTemplate t 2) = map (\<lambda>line. ''>>'' @ trim line) (extractLinesFrom t)"
    using extractLinesFrom_indentTemplate [of 2 t] by (simp add: m)
  have "level (''>>'' @ trim line) = 2 + level (trim line)" for line
    by (simp add: level_def)
  with a b show ?thesis by (simp add: comp_def)
qed

section \<open>The order of siblings\<close>

subsection \<open>What the two searches return\<close>

lemma fold_last_index_max:
  "\<forall>i<n. fold (\<lambda>i l. if P i then i else l) [0 ..< n] a < i \<longrightarrow> \<not> P i"
proof (induction n)
  case 0
  then show ?case by simp
next
  case (Suc n)
  show ?case
  proof (cases "P n")
    case True
    then show ?thesis by simp
  next
    case False
    with Suc.IH show ?thesis by (simp add: less_Suc_eq)
  qed
qed

lemma fold_max_ge:
  "m \<le> fold (\<lambda>child mx. if snd child > mx then snd child else mx) xs (m::nat)
   \<and> (\<forall>x\<in>set xs. snd x \<le> fold (\<lambda>child mx. if snd child > mx then snd child else mx) xs m)"
proof (induction xs arbitrary: m)
  case Nil
  then show ?case by simp
next
  case (Cons a xs)
  let ?f = "\<lambda>child mx. if snd child > mx then snd child else (mx::nat)"
  from Cons.IH [of "?f a m"]
  have 1: "?f a m \<le> fold ?f xs (?f a m)" and 2: "\<forall>x\<in>set xs. snd x \<le> fold ?f xs (?f a m)"
    by simp_all
  have "m \<le> ?f a m" "snd a \<le> ?f a m" by simp_all
  with 1 have "m \<le> fold ?f xs (?f a m)" "snd a \<le> fold ?f xs (?f a m)" by linarith+
  with 2 show ?case by simp
qed

lemma maxLevel_ge:
  assumes "xs \<noteq> []"
  shows "\<forall>x\<in>set xs. snd x \<le> maxLevel xs"
proof -
  from assms obtain c rest where xs: "xs = c # rest" by (cases xs) auto
  show ?thesis unfolding xs maxLevel.simps using fold_max_ge [of "snd c" "c # rest"] by blast
qed

lemma deepest_props:
  assumes "xs \<noteq> []" and "\<forall>p\<in>set xs. 1 \<le> snd p"
  shows "getIndexOfDeepestElement xs < length xs"
    and "\<forall>i<length xs. snd (xs ! i) \<le> snd (xs ! getIndexOfDeepestElement xs)"
    and "\<forall>i<length xs. getIndexOfDeepestElement xs < i \<longrightarrow>
           snd (xs ! i) < snd (xs ! getIndexOfDeepestElement xs)"
proof -
  let ?d = "getIndexOfDeepestElement xs"
  let ?M = "maxLevel xs"
  show d: "?d < length xs" by (rule getIndexOfDeepestElement_less [OF assms(1)])
  have le: "\<forall>i<length xs. snd (xs ! i) \<le> ?M" using maxLevel_ge [OF assms(1)] by simp
  have ge: "\<forall>i<length xs. 1 \<le> snd (xs ! i)" using assms(2) by simp
  have "snd (xs ! ?d) = ?M \<and> (\<forall>i<length xs. ?d < i \<longrightarrow> snd (xs ! i) \<noteq> ?M)"
  proof (cases "?M = 1")
    case True
    then have dd: "?d = length xs - 1" by (simp add: getIndexOfDeepestElement_def)
    from le ge True d have "snd (xs ! ?d) = 1" by (metis le_antisym)
    with True dd show ?thesis by auto
  next
    case False
    then have dd: "?d = fold (\<lambda>i l. if snd (xs ! i) = ?M then i else l) [0 ..< length xs] 1"
      by (simp add: getIndexOfDeepestElement_def)
    from fold_last_index [OF maxLevel_attained [OF assms(1)], of 1]
      fold_last_index_max [of "length xs" "\<lambda>i. snd (xs ! i) = ?M" 1]
    show ?thesis unfolding dd by blast
  qed
  with le show "\<forall>i<length xs. snd (xs ! i) \<le> snd (xs ! ?d)"
    and "\<forall>i<length xs. ?d < i \<longrightarrow> snd (xs ! i) < snd (xs ! ?d)"
    by (simp_all add: le_neq_implies_less)
qed

lemma fold_last_option:
  "(fold (\<lambda>i l. if P i then Some i else l) [0 ..< n] None = Some i \<longrightarrow> i < n \<and> P i)
   \<and> (fold (\<lambda>i l. if P i then Some i else l) [0 ..< n] None = None \<longrightarrow> (\<forall>j<n. \<not> P j))"
proof (induction n)
  case 0
  then show ?case by simp
next
  case (Suc n)
  show ?case
  proof (cases "P n")
    case True
    then show ?thesis by auto
  next
    case False
    with Suc.IH show ?thesis by (auto simp: less_Suc_eq)
  qed
qed

lemma nearest_props:
  shows "getIndexOfNearestParentElementOf d xs = Some i \<Longrightarrow> i < d \<and> Suc (snd (xs ! i)) = snd (xs ! d)"
    and "getIndexOfNearestParentElementOf d xs = None \<Longrightarrow> \<forall>j<d. Suc (snd (xs ! j)) \<noteq> snd (xs ! d)"
proof -
  let ?P = "\<lambda>i. int (snd (xs ! i)) = int (snd (xs ! d)) - 1"
  have P: "?P j \<longleftrightarrow> Suc (snd (xs ! j)) = snd (xs ! d)" for j by auto
  have g: "getIndexOfNearestParentElementOf d xs = fold (\<lambda>i l. if ?P i then Some i else l) [0 ..< d] None"
    by (simp add: getIndexOfNearestParentElementOf_def Let_def)
  show "getIndexOfNearestParentElementOf d xs = Some i \<Longrightarrow> i < d \<and> Suc (snd (xs ! i)) = snd (xs ! d)"
    unfolding g using fold_last_option [of ?P d i] P by blast
  show "getIndexOfNearestParentElementOf d xs = None \<Longrightarrow> \<forall>j<d. Suc (snd (xs ! j)) \<noteq> snd (xs ! d)"
    unfolding g using fold_last_option [of ?P d i] P by blast
qed

lemma in_set_splice: "x \<in> set (splice d ys) \<longleftrightarrow> (\<exists>i<length ys. i \<noteq> d \<and> ys ! i = x)"
proof
  assume "x \<in> set (splice d ys)"
  then consider "x \<in> set (take d ys)" | "x \<in> set (drop (Suc d) ys)" by (auto simp: splice_def)
  then show "\<exists>i<length ys. i \<noteq> d \<and> ys ! i = x"
  proof cases
    case 1
    then obtain i where "i < length (take d ys)" "take d ys ! i = x" by (metis in_set_conv_nth)
    then have "i < length ys" "i \<noteq> d" "ys ! i = x" by auto
    then show ?thesis by blast
  next
    case 2
    then obtain i where i: "i < length (drop (Suc d) ys)" "drop (Suc d) ys ! i = x"
      by (metis in_set_conv_nth)
    then have "Suc d + i < length ys" "Suc d + i \<noteq> d" "ys ! (Suc d + i) = x" by auto
    then show ?thesis by blast
  qed
next
  assume "\<exists>i<length ys. i \<noteq> d \<and> ys ! i = x"
  then obtain i where i: "i < length ys" "i \<noteq> d" "ys ! i = x" by blast
  show "x \<in> set (splice d ys)"
  proof (cases "i < d")
    case True
    with i have "take d ys ! i = x" "i < length (take d ys)" by auto
    then have "x \<in> set (take d ys)" by (metis nth_mem)
    then show ?thesis by (simp add: splice_def)
  next
    case False
    with i obtain k where k: "i = Suc d + k" by (metis less_iff_Suc_add linorder_neqE_nat add_Suc)
    with i have "drop (Suc d) ys ! k = x" "k < length (drop (Suc d) ys)" by auto
    then have "x \<in> set (drop (Suc d) ys)" by (metis nth_mem)
    then show ?thesis by (simp add: splice_def)
  qed
qed

lemma sorted_wrt_splice: "sorted_wrt P ys \<Longrightarrow> sorted_wrt P (splice d ys)"
proof -
  assume a: "sorted_wrt P ys"
  have "ys = take d ys @ drop d ys" by simp
  with a have "sorted_wrt P (take d ys @ drop d ys)" by simp
  then have 1: "sorted_wrt P (take d ys)" and 2: "sorted_wrt P (drop d ys)"
    and 3: "\<forall>x\<in>set (take d ys). \<forall>y\<in>set (drop d ys). P x y"
    unfolding sorted_wrt_append by blast+
  have s: "drop (Suc d) ys = drop 1 (drop d ys)" by simp
  have "set (drop (Suc d) ys) \<subseteq> set (drop d ys)" unfolding s by (rule set_drop_subset)
  moreover have "sorted_wrt P (drop (Suc d) ys)" unfolding s using 2 by (rule sorted_wrt_drop)
  ultimately show ?thesis using 1 3 unfolding splice_def sorted_wrt_append by blast
qed

lemma map_splice: "map f (splice d ys) = splice d (map f ys)"
  by (simp add: splice_def take_map drop_map)

subsection \<open>The invariant of the loop\<close>

lemma node_uid_prepend [simp]: "node_uid (prepend e c) = node_uid e"
  by (cases e) auto

lemma is_element_prepend [simp]: "is_element (prepend e c) = is_element e"
  by (cases e) auto

lemma children_prepend:
  "is_element e \<Longrightarrow> is_element c \<Longrightarrow> children (prepend e c) = c # children e"
  by (cases e) (auto simp: children_def)

lemma childNodes_prepend: "is_element e \<Longrightarrow> childNodes (prepend e c) = c # childNodes e"
  by (cases e) auto

lemma ordered_children: "is_element e \<Longrightarrow>
  ordered e \<longleftrightarrow> sorted_wrt (<) (map node_uid (children e)) \<and> (\<forall>c\<in>set (childNodes e). ordered c)"
  by (cases e) (auto simp: children_def)

lemma ordered_prepend:
  assumes "is_element e" and "is_element c"
  shows "ordered (prepend e c) \<longleftrightarrow>
           ordered e \<and> ordered c \<and> (\<forall>x\<in>set (children e). node_uid c < node_uid x)"
  using assms by (cases e) (auto simp: children_def)

lemma direct_smaller:
  assumes "K' = K - {kd}" and "\<forall>k\<in>K. snd k \<le> snd kd" and "q \<in> K'" and "direct K' q"
  shows "direct K q"
  unfolding direct_def
proof
  assume "\<exists>r\<in>K. fst r < fst q \<and> Suc (snd r) = snd q"
  then obtain r where r: "r \<in> K" "fst r < fst q" "Suc (snd r) = snd q" by blast
  from assms(1,3) have "q \<in> K" by simp
  with assms(2) have "snd q \<le> snd kd" by simp
  with r(3) have "r \<noteq> kd" by auto
  with r(1) assms(1) have "r \<in> K'" by simp
  with r(2,3) assms(4) show False unfolding direct_def by blast
qed

lemma rising_smaller:
  assumes "K' = K - {kd}" and "\<forall>k\<in>K. snd k \<le> snd kd" and "rising K"
  shows "rising K'"
  unfolding rising_def
proof (intro ballI impI)
  fix q r assume q: "q \<in> K'" and r: "r \<in> K'" and h: "fst q < fst r \<and> direct K' q \<and> direct K' r"
  from direct_smaller [OF assms(1,2) q] direct_smaller [OF assms(1,2) r] h
  have "direct K q" "direct K r" by simp_all
  moreover from q r assms(1) have "q \<in> K" "r \<in> K" by simp_all
  ultimately show "snd q \<le> snd r" using assms(3) h unfolding rising_def by blast
qed

lemma main_inv_same:
  assumes "K' = K - {kd}" and "\<forall>k\<in>K. snd k \<le> snd kd" and "main_inv m K"
  shows "main_inv m K'"
  unfolding main_inv_def
proof (intro conjI ballI impI)
  from assms(3) show "sorted_wrt (<) (map node_uid (children m))" by (simp add: main_inv_def)
next
  fix c q assume c: "c \<in> set (children m)" and q: "q \<in> K'" and d: "direct K' q"
  from direct_smaller [OF assms(1,2) q d] have "direct K q" .
  moreover from q assms(1) have "q \<in> K" by simp
  ultimately show "fst q < node_uid c" using assms(3) c unfolding main_inv_def by blast
qed

lemma main_inv_prepend:
  assumes "K' = K - {kd}" and "\<forall>k\<in>K. snd k \<le> snd kd"
    and "\<forall>k\<in>K. snd k = snd kd \<longrightarrow> fst k \<le> fst kd"
    and "\<forall>k\<in>K. fst k = fst kd \<longrightarrow> k = kd"
    and "kd \<in> K" and "direct K kd" and "rising K" and "main_inv m K"
    and "is_element m" and "is_element c" and "node_uid c = fst kd"
  shows "main_inv (prepend m c) K'"
  unfolding main_inv_def children_prepend [OF assms(9,10)]
proof (intro conjI ballI impI)
  from assms(5,6,8,11) have "\<forall>x\<in>set (children m). node_uid c < node_uid x"
    unfolding main_inv_def by auto
  with assms(8) show "sorted_wrt (<) (map node_uid (c # children m))"
    by (simp add: main_inv_def)
next
  fix x q assume x: "x \<in> set (c # children m)" and q: "q \<in> K'" and d: "direct K' q"
  from direct_smaller [OF assms(1,2) q d] have dq: "direct K q" .
  from q assms(1) have qK: "q \<in> K" "q \<noteq> kd" by simp_all
  show "fst q < node_uid x"
  proof (cases "x = c")
    case False
    with x have "x \<in> set (children m)" by simp
    with assms(8) qK dq show ?thesis unfolding main_inv_def by blast
  next
    case True
    have "fst q < fst kd"
    proof (rule ccontr)
      assume "\<not> fst q < fst kd"
      moreover from qK assms(4) have "fst q \<noteq> fst kd" by blast
      ultimately have gt: "fst kd < fst q" by simp
      with assms(5,6,7) qK dq have "snd kd \<le> snd q" unfolding rising_def by blast
      moreover from assms(2) qK have "snd q \<le> snd kd" by simp
      ultimately have "snd q = snd kd" by simp
      with assms(3) qK have "fst q \<le> fst kd" by simp
      with gt show False by simp
    qed
    with True assms(11) show ?thesis by simp
  qed
qed

lemma reattach_inv:
  fixes xs :: "(('cb, 'opt) node \<times> nat) list"
  assumes ne: "xs \<noteq> []" and inv: "pending_inv xs" and m0: "main_inv0 m"
  shows "pending_inv (snd (reattach m xs))"
    and "main_inv0 (fst (reattach m xs))"
    and "key ` set (snd (reattach m xs)) = key ` set xs - {key (xs ! getIndexOfDeepestElement xs)}"
    and "\<forall>k\<in>key ` set xs. snd k \<le> snd (key (xs ! getIndexOfDeepestElement xs))"
    and "\<forall>k\<in>key ` set xs. snd k = snd (key (xs ! getIndexOfDeepestElement xs))
           \<longrightarrow> fst k \<le> fst (key (xs ! getIndexOfDeepestElement xs))"
    and "\<forall>k\<in>key ` set xs. fst k = fst (key (xs ! getIndexOfDeepestElement xs))
           \<longrightarrow> k = key (xs ! getIndexOfDeepestElement xs)"
    and "fst (reattach m xs) = m
         \<or> (fst (reattach m xs) = prepend m (fst (xs ! getIndexOfDeepestElement xs))
            \<and> direct (key ` set xs) (key (xs ! getIndexOfDeepestElement xs)))"
proof -
  let ?d = "getIndexOfDeepestElement xs"
  let ?U = "\<lambda>p::('cb, 'opt) node \<times> nat. node_uid (fst p)"
  let ?M = "snd (xs ! ?d)"
  let ?par = "getIndexOfNearestParentElementOf ?d xs"
  from inv have srt: "sorted_wrt (<) (map ?U xs)" by (simp add: pending_inv_def)
  from inv have el: "\<And>p. p \<in> set xs \<Longrightarrow> 1 \<le> snd p \<and> is_element (fst p) \<and> ordered (fst p)"
    by (simp add: pending_inv_def)
  from inv have cb: "\<And>p c q. p \<in> set xs \<Longrightarrow> c \<in> set (children (fst p)) \<Longrightarrow> q \<in> set xs \<Longrightarrow>
      snd q = Suc (snd p) \<Longrightarrow> ?U q < node_uid c"
    unfolding pending_inv_def by blast
  have lv: "\<forall>p\<in>set xs. 1 \<le> snd p" using el by blast
  note dp = deepest_props [OF ne lv]
  have U_less: "?U (xs ! i) < ?U (xs ! j)" if "i < j" "j < length xs" for i j
    using sorted_wrt_nth_less [OF srt, of i j] that by simp
  have U_inj: "i = j" if "i < length xs" "j < length xs" "?U (xs ! i) = ?U (xs ! j)" for i j
  proof (rule ccontr)
    assume "i \<noteq> j"
    then consider "i < j" | "j < i" by linarith
    then show False using U_less [of i j] U_less [of j i] that by cases simp_all
  qed
  have dmem: "xs ! ?d \<in> set xs" using dp(1) by simp
  have before: "j < ?d" if "j < length xs" "j \<noteq> ?d" "snd (xs ! j) = ?M" for j
  proof (rule ccontr)
    assume "\<not> j < ?d"
    with that(2) have "?d < j" by simp
    with dp(3) that(1) have "snd (xs ! j) < ?M" by blast
    with that(3) show False by simp
  qed
  show "\<forall>k\<in>key ` set xs. snd k \<le> snd (key (xs ! ?d))"
  proof
    fix k assume "k \<in> key ` set xs"
    then obtain j where j: "j < length xs" "k = key (xs ! j)" by (auto simp: in_set_conv_nth)
    with dp(2) show "snd k \<le> snd (key (xs ! ?d))" by (simp add: key_def)
  qed
  show k5: "\<forall>k\<in>key ` set xs. snd k = snd (key (xs ! ?d)) \<longrightarrow> fst k \<le> fst (key (xs ! ?d))"
  proof (intro ballI impI)
    fix k assume "k \<in> key ` set xs" and s: "snd k = snd (key (xs ! ?d))"
    then obtain j where j: "j < length xs" "k = key (xs ! j)" by (auto simp: in_set_conv_nth)
    show "fst k \<le> fst (key (xs ! ?d))"
    proof (cases "j = ?d")
      case True
      with j show ?thesis by simp
    next
      case False
      with before [OF j(1)] s j have "j < ?d" by (simp add: key_def)
      from U_less [OF this dp(1)] j show ?thesis by (simp add: key_def)
    qed
  qed
  show k6: "\<forall>k\<in>key ` set xs. fst k = fst (key (xs ! ?d)) \<longrightarrow> k = key (xs ! ?d)"
  proof (intro ballI impI)
    fix k assume "k \<in> key ` set xs" and s: "fst k = fst (key (xs ! ?d))"
    then obtain j where j: "j < length xs" "k = key (xs ! j)" by (auto simp: in_set_conv_nth)
    with s U_inj [OF j(1) dp(1)] have "j = ?d" by (simp add: key_def)
    with j show "k = key (xs ! ?d)" by simp
  qed
  define ys where "ys = (case ?par of
      Some p \<Rightarrow> xs[p := (prepend (fst (xs ! p)) (fst (xs ! ?d)), snd (xs ! p))]
    | None \<Rightarrow> xs)"
  have r2: "snd (reattach m xs) = splice ?d ys"
    by (simp add: reattach_def ys_def Let_def split: option.splits)
  have len: "length ys = length xs" by (simp add: ys_def split: option.splits)
  have V: "?U (ys ! i) = ?U (xs ! i) \<and> snd (ys ! i) = snd (xs ! i) \<and> is_element (fst (ys ! i))
           \<and> ordered (fst (ys ! i)) \<and> 1 \<le> snd (ys ! i)
           \<and> (\<forall>c\<in>set (children (fst (ys ! i))). \<forall>q\<in>set xs.
                 q \<noteq> xs ! ?d \<longrightarrow> snd q = Suc (snd (xs ! i)) \<longrightarrow> ?U q < node_uid c)"
    if i: "i < length xs" for i
  proof -
    from i have mem: "xs ! i \<in> set xs" by simp
    have same: ?thesis if "ys ! i = xs ! i"
      using that el [OF mem] cb [OF mem] by auto
    show ?thesis
    proof (cases ?par)
      case None
      then have "ys = xs" by (simp add: ys_def)
      then show ?thesis using same by simp
    next
      case (Some p)
      from nearest_props(1) [OF Some] have p: "p < ?d" "Suc (snd (xs ! p)) = ?M" by simp_all
      from p(1) dp(1) have pl: "p < length xs" by simp
      then have pmem: "xs ! p \<in> set xs" by simp
      have ys: "ys = xs[p := (prepend (fst (xs ! p)) (fst (xs ! ?d)), snd (xs ! p))]"
        by (simp add: ys_def Some)
      show ?thesis
      proof (cases "i = p")
        case False
        then have "ys ! i = xs ! i" by (simp add: ys)
        then show ?thesis by (rule same)
      next
        case True
        let ?ep = "fst (xs ! p)" and ?ed = "fst (xs ! ?d)"
        have yi: "ys ! i = (prepend ?ep ?ed, snd (xs ! p))" using True pl by (simp add: ys)
        from el [OF pmem] have ep: "is_element ?ep" "ordered ?ep" "1 \<le> snd (xs ! p)" by simp_all
        from el [OF dmem] have ed: "is_element ?ed" "ordered ?ed" by simp_all
        have lt: "\<forall>x\<in>set (children ?ep). node_uid ?ed < node_uid x"
          using cb [OF pmem _ dmem] p(2) by simp
        have ord: "ordered (prepend ?ep ?ed)"
          using ordered_prepend [OF ep(1) ed(1)] ep(2) ed(2) lt by simp
        have bound: "?U q < node_uid c"
          if c: "c \<in> set (children (prepend ?ep ?ed))" and q: "q \<in> set xs" "q \<noteq> xs ! ?d"
            "snd q = Suc (snd (xs ! p))" for c q
        proof (cases "c = ?ed")
          case True
          from q(1) obtain j where j: "j < length xs" "xs ! j = q" by (metis in_set_conv_nth)
          with q(2) have "j \<noteq> ?d" by auto
          moreover from j q(3) p(2) have "snd (xs ! j) = ?M" by simp
          ultimately have "j < ?d" using before [OF j(1)] by simp
          from U_less [OF this dp(1)] j True show ?thesis by simp
        next
          case False
          with c have "c \<in> set (children ?ep)" by (simp add: children_prepend [OF ep(1) ed(1)])
          from cb [OF pmem this q(1) q(3)] show ?thesis .
        qed
        show ?thesis
          unfolding yi using ep ord bound True by auto
      qed
    qed
  qed
  have mapU: "map ?U ys = map ?U xs"
    by (rule nth_equalityI) (use len V in simp_all)
  have in_xs': "\<exists>i<length xs. i \<noteq> ?d \<and> q' = ys ! i" if "q' \<in> set (splice ?d ys)" for q'
    using that len unfolding in_set_splice by auto
  show "pending_inv (snd (reattach m xs))"
    unfolding r2 pending_inv_def
  proof (intro conjI ballI impI)
    have "map ?U (splice ?d ys) = splice ?d (map ?U xs)" by (simp add: map_splice mapU)
    with sorted_wrt_splice [OF srt, of ?d]
    show "sorted_wrt (<) (map ?U (splice ?d ys))" by simp
  next
    fix q' assume "q' \<in> set (splice ?d ys)"
    from in_xs' [OF this] V show "1 \<le> snd q'" by auto
  next
    fix q' assume "q' \<in> set (splice ?d ys)"
    from in_xs' [OF this] V show "is_element (fst q')" by auto
  next
    fix q' assume "q' \<in> set (splice ?d ys)"
    from in_xs' [OF this] V show "ordered (fst q')" by auto
  next
    fix q' c r'
    assume q': "q' \<in> set (splice ?d ys)" and c: "c \<in> set (children (fst q'))"
      and r': "r' \<in> set (splice ?d ys)" and s: "snd r' = Suc (snd q')"
    from in_xs' [OF q'] obtain i where i: "i < length xs" "i \<noteq> ?d" "q' = ys ! i" by blast
    from in_xs' [OF r'] obtain j where j: "j < length xs" "j \<noteq> ?d" "r' = ys ! j" by blast
    from j(1) have jm: "xs ! j \<in> set xs" by simp
    have jd: "xs ! j \<noteq> xs ! ?d" using U_inj [OF j(1) dp(1)] j(2) by auto
    from V [OF i(1)] V [OF j(1)] s i(3) j(3) have "snd (xs ! j) = Suc (snd (xs ! i))" by simp
    with V [OF i(1)] c i(3) jm jd have "?U (xs ! j) < node_uid c" by blast
    with V [OF j(1)] j(3) show "node_uid (fst r') < node_uid c" by simp
  qed
  show "key ` set (snd (reattach m xs)) = key ` set xs - {key (xs ! ?d)}"
    unfolding r2
  proof (intro equalityI subsetI)
    fix k assume "k \<in> key ` set (splice ?d ys)"
    then obtain q' where q': "q' \<in> set (splice ?d ys)" "k = key q'" by blast
    from in_xs' [OF q'(1)] obtain i where i: "i < length xs" "i \<noteq> ?d" "q' = ys ! i" by blast
    from V [OF i(1)] i(3) q'(2) have kk: "k = key (xs ! i)" by (simp add: key_def)
    have "key (xs ! i) \<noteq> key (xs ! ?d)" using U_inj [OF i(1) dp(1)] i(2) by (auto simp: key_def)
    with kk i(1) show "k \<in> key ` set xs - {key (xs ! ?d)}" by simp
  next
    fix k assume "k \<in> key ` set xs - {key (xs ! ?d)}"
    then obtain i where i: "i < length xs" "k = key (xs ! i)" "k \<noteq> key (xs ! ?d)"
      by (auto simp: in_set_conv_nth)
    then have "i \<noteq> ?d" by auto
    with i(1) len have "ys ! i \<in> set (splice ?d ys)" unfolding in_set_splice by auto
    moreover from V [OF i(1)] i(2) have "k = key (ys ! i)" by (simp add: key_def)
    ultimately show "k \<in> key ` set (splice ?d ys)" by blast
  qed
  from m0 have mel: "is_element m" and mch: "\<forall>c\<in>set (childNodes m). ordered c"
    by (simp_all add: main_inv0_def)
  show "main_inv0 (fst (reattach m xs))"
  proof (cases ?par)
    case None
    then have "fst (reattach m xs) = prepend m (fst (xs ! ?d))" by (simp add: reattach_def Let_def)
    with mel mch el [OF dmem] show ?thesis
      by (simp add: main_inv0_def childNodes_prepend)
  next
    case (Some p)
    then have "fst (reattach m xs) = m" by (simp add: reattach_def Let_def)
    with m0 show ?thesis by simp
  qed
  show "fst (reattach m xs) = m
         \<or> (fst (reattach m xs) = prepend m (fst (xs ! ?d)) \<and> direct (key ` set xs) (key (xs ! ?d)))"
  proof (cases ?par)
    case (Some p)
    then show ?thesis by (simp add: reattach_def Let_def)
  next
    case None
    then have f: "fst (reattach m xs) = prepend m (fst (xs ! ?d))" by (simp add: reattach_def Let_def)
    have "direct (key ` set xs) (key (xs ! ?d))"
      unfolding direct_def
    proof
      assume "\<exists>r\<in>key ` set xs. fst r < fst (key (xs ! ?d)) \<and> Suc (snd r) = snd (key (xs ! ?d))"
      then obtain j where j: "j < length xs" "?U (xs ! j) < ?U (xs ! ?d)" "Suc (snd (xs ! j)) = ?M"
        by (auto simp: key_def in_set_conv_nth)
      have "j < ?d"
      proof (rule ccontr)
        assume "\<not> j < ?d"
        then consider "j = ?d" | "?d < j" by linarith
        then show False using j(2) U_less [OF _ j(1), of ?d] by cases simp_all
      qed
      with nearest_props(2) [OF None] j(3) show False by blast
    qed
    with f show ?thesis by simp
  qed
qed

lemma reconstruct_step:
  "xs \<noteq> [] \<Longrightarrow> reconstruct m xs = reconstruct (fst (reattach m xs)) (snd (reattach m xs))"
  by (subst reconstruct.simps) (simp add: case_prod_beta)

lemma reconstruct_Nil: "reconstruct m [] = m"
  by (subst reconstruct.simps) simp

lemma reconstruct_main_inv0:
  "pending_inv xs \<Longrightarrow> main_inv0 m \<Longrightarrow> main_inv0 (reconstruct m xs)"
proof (induction "length xs" arbitrary: m xs)
  case 0
  then show ?case by (simp add: reconstruct_Nil)
next
  case (Suc n)
  then have ne: "xs \<noteq> []" by auto
  from length_reattach [OF ne, of m] Suc.hyps(2) have "n = length (snd (reattach m xs))" by simp
  from Suc.hyps(1) [OF this reattach_inv(1,2) [OF ne Suc.prems]]
  show ?case by (simp only: reconstruct_step [OF ne])
qed

lemma reconstruct_main_inv:
  "pending_inv xs \<Longrightarrow> main_inv0 m \<Longrightarrow> rising (key ` set xs) \<Longrightarrow> main_inv m (key ` set xs) \<Longrightarrow>
   sorted_wrt (<) (map node_uid (children (reconstruct m xs)))"
proof (induction "length xs" arbitrary: m xs)
  case 0
  then show ?case by (simp add: reconstruct_Nil main_inv_def)
next
  case (Suc n)
  then have ne: "xs \<noteq> []" by auto
  let ?d = "getIndexOfDeepestElement xs"
  let ?K = "key ` set xs"
  let ?kd = "key (xs ! ?d)"
  note r = reattach_inv [OF ne Suc.prems(1,2)]
  from length_reattach [OF ne, of m] Suc.hyps(2) have n: "n = length (snd (reattach m xs))" by simp
  have K': "key ` set (snd (reattach m xs)) = ?K - {?kd}" by (rule r(3))
  have ris: "rising (key ` set (snd (reattach m xs)))"
    by (rule rising_smaller [OF K' r(4) Suc.prems(3)])
  have dmem: "?kd \<in> ?K" using getIndexOfDeepestElement_less [OF ne] by simp
  from Suc.prems(1) dmem have eld: "is_element (fst (xs ! ?d))"
    using getIndexOfDeepestElement_less [OF ne] by (simp add: pending_inv_def)
  from Suc.prems(2) have elm: "is_element m" by (simp add: main_inv0_def)
  have mi: "main_inv (fst (reattach m xs)) (key ` set (snd (reattach m xs)))"
    using r(7)
  proof
    assume "fst (reattach m xs) = m"
    with main_inv_same [OF K' r(4) Suc.prems(4)] show ?thesis by simp
  next
    assume a: "fst (reattach m xs) = prepend m (fst (xs ! ?d)) \<and> direct ?K ?kd"
    have "main_inv (prepend m (fst (xs ! ?d))) (key ` set (snd (reattach m xs)))"
      by (rule main_inv_prepend [OF K' r(4) r(5) r(6) dmem _ Suc.prems(3,4) elm eld])
        (use a in \<open>simp_all add: key_def\<close>)
    with a show ?thesis by simp
  qed
  from Suc.hyps(1) [OF n r(1) r(2) ris mi]
  show ?case by (simp only: reconstruct_step [OF ne])
qed

lemma rising_of_levels:
  assumes "sorted_wrt (<) (map (\<lambda>p. node_uid (fst p)) xs)" and "levels_rise (map snd xs)"
  shows "rising (key ` set xs)"
proof -
  let ?U = "\<lambda>p. node_uid (fst p)"
  have U_less: "?U (xs ! i) < ?U (xs ! j)" if "i < j" "j < length xs" for i j
    using sorted_wrt_nth_less [OF assms(1), of i j] that by simp
  have idx: "i < j" if "i < length xs" "j < length xs" "?U (xs ! i) < ?U (xs ! j)" for i j
  proof (rule ccontr)
    assume "\<not> i < j"
    then consider "i = j" | "j < i" by linarith
    then show False using that U_less [of j i] by cases simp_all
  qed
  have att: "attaches_to_main (map snd xs) i" if "i < length xs" "direct (key ` set xs) (key (xs ! i))" for i
    unfolding attaches_to_main_def
  proof
    assume "\<exists>j<i. Suc (map snd xs ! j) = map snd xs ! i"
    then obtain j where j0: "j < i" "Suc (map snd xs ! j) = map snd xs ! i" by blast
    with that(1) have j: "j < i" "Suc (snd (xs ! j)) = snd (xs ! i)" by simp_all
    with that(1) have "key (xs ! j) \<in> key ` set xs" by simp
    moreover from U_less [OF j(1) that(1)] j(2)
    have "fst (key (xs ! j)) < fst (key (xs ! i)) \<and> Suc (snd (key (xs ! j))) = snd (key (xs ! i))"
      by (simp add: key_def)
    ultimately show False using that(2) unfolding direct_def by blast
  qed
  show ?thesis
    unfolding rising_def
  proof (intro ballI impI)
    fix q r assume "q \<in> key ` set xs" "r \<in> key ` set xs"
      and h: "fst q < fst r \<and> direct (key ` set xs) q \<and> direct (key ` set xs) r"
    then obtain i k where i: "i < length xs" "q = key (xs ! i)" and k: "k < length xs" "r = key (xs ! k)"
      by (auto simp: in_set_conv_nth)
    from h i k have "i < k" using idx [OF i(1) k(1)] by (simp add: key_def)
    moreover from att [OF i(1)] att [OF k(1)] h i k
    have "attaches_to_main (map snd xs) i" "attaches_to_main (map snd xs) k" by simp_all
    ultimately have "map snd xs ! i \<le> map snd xs ! k"
      using assms(2) k(1) unfolding levels_rise_def by simp
    with i k show "snd q \<le> snd r" by (simp add: key_def)
  qed
qed

lemma fresh_classList_add [simp]: "fresh u (classList_add c el) = fresh u el"
  by (cases el) (auto simp: fresh_def)

lemma fresh_fold_add_class [simp]: "fresh u (fold add_class cl el) = fresh u el"
  by (induction cl arbitrary: el) (auto simp: add_class_def)

lemma fresh_setAttribute: "setAttribute pf n v el = Inr el' \<Longrightarrow> fresh u el' = fresh u el"
  by (cases el) (auto simp: fresh_def split: if_splits)

lemma fresh_add_attribute: "add_attribute pf a el = Inr el' \<Longrightarrow> fresh u el' = fresh u el"
  by (auto simp: add_attribute_def Let_def fresh_setAttribute split: if_splits list.splits)

lemma fresh_add_attributes: "add_attributes pf al el = Inr el' \<Longrightarrow> fresh u el' = fresh u el"
proof (induction al arbitrary: el)
  case Nil
  then show ?case by simp
next
  case (Cons a al)
  then show ?case
    by (auto split: sum.splits dest: fresh_add_attribute)
qed

lemma fresh_set_id [simp]: "fresh u (set_id i el) = fresh u el"
  by (cases el) (auto simp: fresh_def)

lemma fresh_appendChild_text [simp]: "fresh u (appendChild el (TextNode t)) = fresh u el"
  by (cases el) (auto simp: fresh_def)

lemma fresh_addEventListener [simp]: "fresh u (addEventListener ev el) = fresh u el"
  by (cases el) (auto simp: fresh_def)

lemma fresh_fold_add_event [simp]: "fresh u (fold (add_event b) ns el) = fresh u el"
  by (induction ns arbitrary: el) (auto simp: add_event_def split: option.splits)

lemma fresh_createElement: "fresh u (createElement u t)"
  by (simp add: fresh_def)

lemma createElementFromLine_fresh:
  assumes "createElementFromLine pf b u line = Inr el"
  shows "fresh u el"
proof -
  obtain m where m: "REGEX_exec line = Some m"
    using assms by (cases "REGEX_exec line") (auto simp: createElementFromLine_def)
  from REGEX_exec_Some_m1 [OF m] have t: "truthy (Some (m1 m)) = Some (first_word_run line)"
    by (auto simp: truthy_def falsy_def)
  define classes where
    "classes = map_option (\<lambda>g. filter (\<lambda>v. v \<noteq> []) (js_split g ''.'')) (truthy (m2 m))"
  define attrs where
    "attrs = map_option (\<lambda>g. js_split g (SYMBOL_BETWEEN_ATTRIBUTES b)) (truthy (m5 m))"
  define element1 :: "('a, 'b) node" where
    "element1 = (case classes of Some cl \<Rightarrow> fold add_class cl (createElement u (first_word_run line))
                 | None \<Rightarrow> createElement u (first_word_run line))"
  define step2 where
    "step2 = (case attrs of Some al \<Rightarrow> add_attributes pf al element1 | None \<Rightarrow> Inr element1)"
  have e1: "fresh u element1"
    by (simp add: element1_def fresh_createElement del: createElement.simps split: option.splits)
  have unf: "createElementFromLine pf b u line =
    (if \<not> validElementName pf (first_word_run line) then Inl InvalidCharacterError
     else case step2 of
            Inl e \<Rightarrow> Inl e
          | Inr element2 \<Rightarrow>
             (let element3 = (case truthy (map_option (replaceFirst ''#'' []) (truthy (m3 m))) of
                                Some i \<Rightarrow> set_id i element2 | None \<Rightarrow> element2);
                  element4 = (case truthy (m4 m) of
                                Some c \<Rightarrow> appendChild element3 (TextNode (decodeHTMLEntities pf c))
                              | None \<Rightarrow> element3);
                  element5 = (case map_option (\<lambda>g. filter (\<lambda>v. v \<noteq> []) (js_split g '';'')) (truthy (m6 m)) of
                                Some el \<Rightarrow> fold (add_event b) el element4
                              | None \<Rightarrow> element4)
              in Inr element5))"
    unfolding createElementFromLine_def Let_def m option.case t step2_def element1_def
      classes_def attrs_def by (rule refl)
  from assms unf obtain element2 where s2: "step2 = Inr element2"
    by (cases step2) (auto split: if_splits)
  then have "fresh u element2"
    using e1 by (auto simp: step2_def split: option.splits dest: fresh_add_attributes)
  with assms s2 show ?thesis
    by (auto simp: unf Let_def split: if_splits option.splits)
qed

lemma plain_ordered:
  assumes "is_element e" and "\<forall>c\<in>set (childNodes e). \<not> is_element c"
  shows "ordered e" and "children e = []" and "\<forall>c\<in>set (childNodes e). ordered c"
proof -
  from assms(1) obtain d cs where e: "e = Element d cs" by (cases e) auto
  from assms(2) have f: "filter is_element cs = []" by (simp add: e filter_empty_conv)
  have o: "ordered c" if "c \<in> set cs" for c
    using assms(2) that by (cases c) (auto simp: e)
  from f o show "ordered e" by (simp add: e)
  from f show "children e = []" by (simp add: e children_def)
  from o show "\<forall>c\<in>set (childNodes e). ordered c" by (simp add: e)
qed

lemma pending_inv_initial:
  assumes "sorted_wrt (<) (map (\<lambda>p. node_uid (fst p)) cs)"
    and "\<forall>p\<in>set cs. 1 \<le> snd p"
    and "\<forall>p\<in>set cs. fresh (node_uid (fst p)) (fst p)"
  shows "pending_inv cs"
  unfolding pending_inv_def
proof (intro conjI ballI impI)
  show "sorted_wrt (<) (map (\<lambda>p. node_uid (fst p)) cs)" by (rule assms(1))
next
  fix p assume "p \<in> set cs"
  with assms(2) show "1 \<le> snd p" by simp
next
  fix p assume "p \<in> set cs"
  with assms(3) show "is_element (fst p)" by (simp add: fresh_def)
next
  fix p assume "p \<in> set cs"
  with assms(3) plain_ordered(1) [of "fst p"] show "ordered (fst p)" by (simp add: fresh_def)
next
  fix p c q assume "p \<in> set cs" and c: "c \<in> set (children (fst p))"
  with assms(3) plain_ordered(2) [of "fst p"] have "children (fst p) = []" by (simp add: fresh_def)
  with c show "node_uid (fst q) < node_uid c" by simp
qed

lemma node_uid_reattach: "node_uid (fst (reattach m xs)) = node_uid m"
  by (simp add: reattach_def Let_def split: option.splits)

lemma node_uid_reconstruct: "node_uid (reconstruct m xs) = node_uid m"
proof (induction "length xs" arbitrary: m xs)
  case 0
  then show ?case by (simp add: reconstruct_Nil)
next
  case (Suc n)
  then have ne: "xs \<noteq> []" by auto
  from length_reattach [OF ne, of m] Suc.hyps(2) have "n = length (snd (reattach m xs))" by simp
  from Suc.hyps(1) [OF this, of "fst (reattach m xs)"] node_uid_reattach [of m xs]
  show ?case by (simp only: reconstruct_step [OF ne])
qed

lemma reconstruct_ordered:
  assumes "fresh u m"
    and "sorted_wrt (<) (map (\<lambda>p. node_uid (fst p)) cs)"
    and "\<forall>p\<in>set cs. 1 \<le> snd p"
    and "\<forall>p\<in>set cs. fresh (node_uid (fst p)) (fst p)"
  shows "is_element (reconstruct m cs)"
    and "node_uid (reconstruct m cs) = u"
    and "\<forall>c\<in>set (childNodes (reconstruct m cs)). ordered c"
    and "levels_rise (map snd cs) \<Longrightarrow> ordered (reconstruct m cs)"
proof -
  from assms(1) have m: "is_element m" "\<forall>c\<in>set (childNodes m). \<not> is_element c" "node_uid m = u"
    by (simp_all add: fresh_def)
  have p: "pending_inv cs" by (rule pending_inv_initial [OF assms(2,3,4)])
  have m0: "main_inv0 m" using m(1) plain_ordered(3) [OF m(1,2)] by (simp add: main_inv0_def)
  from reconstruct_main_inv0 [OF p m0]
  show e: "is_element (reconstruct m cs)" and k: "\<forall>c\<in>set (childNodes (reconstruct m cs)). ordered c"
    by (simp_all add: main_inv0_def)
  show "node_uid (reconstruct m cs) = u" by (simp add: node_uid_reconstruct m(3))
  assume "levels_rise (map snd cs)"
  then have r: "rising (key ` set cs)" by (rule rising_of_levels [OF assms(2)])
  have mi: "main_inv m (key ` set cs)" by (simp add: main_inv_def plain_ordered(2) [OF m(1,2)])
  from reconstruct_main_inv [OF p m0 r mi] e k
  show "ordered (reconstruct m cs)" by (simp add: ordered_children)
qed

lemma createChildren_props:
  assumes "createChildren pf b lines ks = Inr cs"
  shows "map (\<lambda>p. node_uid (fst p)) cs = ks"
    and "map snd cs = map (\<lambda>k. level (lines ! k)) ks"
    and "\<forall>p\<in>set cs. fresh (node_uid (fst p)) (fst p)"
  using assms
proof (induction ks arbitrary: cs)
  case Nil
  {
    case 1 then show ?case by simp
  next
    case 2 then show ?case by simp
  next
    case 3 then show ?case by simp
  }
next
  case (Cons k ks)
  {
    case 1
    then obtain child rest where c: "createElementFromLine pf b k (lines ! k) = Inr child"
      "createChildren pf b lines ks = Inr rest" "cs = (child, level (lines ! k)) # rest"
      by (auto split: sum.splits)
    from createElementFromLine_fresh [OF c(1)] Cons.IH(1) [OF c(2)] c(3)
    show ?case by (simp add: fresh_def)
  next
    case 2
    then obtain child rest where c: "createElementFromLine pf b k (lines ! k) = Inr child"
      "createChildren pf b lines ks = Inr rest" "cs = (child, level (lines ! k)) # rest"
      by (auto split: sum.splits)
    from Cons.IH(2) [OF c(2)] c(3) show ?case by simp
  next
    case 3
    then obtain child rest where c: "createElementFromLine pf b k (lines ! k) = Inr child"
      "createChildren pf b lines ks = Inr rest" "cs = (child, level (lines ! k)) # rest"
      by (auto split: sum.splits)
    from createElementFromLine_fresh [OF c(1)] Cons.IH(3) [OF c(2)] c(3)
    show ?case by (simp add: fresh_def)
  }
qed

lemma filter_upt_Cons:
  "filter P [a ..< n] = i # rest \<Longrightarrow>
   a \<le> i \<and> i < n \<and> P i \<and> (\<forall>k. a \<le> k \<and> k < i \<longrightarrow> \<not> P k) \<and> rest = filter P [Suc i ..< n]"
proof (induction "n - a" arbitrary: a)
  case 0
  then show ?case by simp
next
  case (Suc x)
  then have an: "a < n" by simp
  then have u: "[a ..< n] = a # [Suc a ..< n]" by (rule upt_conv_Cons)
  show ?case
  proof (cases "P a")
    case True
    with Suc.prems an show ?thesis by (auto simp: u)
  next
    case False
    with Suc.prems have f: "filter P [Suc a ..< n] = i # rest" by (simp add: u)
    from Suc.hyps(2) have "x = n - Suc a" by simp
    from Suc.hyps(1) [OF this f]
    have ih: "Suc a \<le> i" "i < n" "P i" "\<forall>k. Suc a \<le> k \<and> k < i \<longrightarrow> \<not> P k"
      "rest = filter P [Suc i ..< n]" by blast+
    have "\<not> P k" if "a \<le> k \<and> k < i" for k
    proof (cases "k = a")
      case True
      with False show ?thesis by simp
    next
      case False
      with that have "Suc a \<le> k \<and> k < i" by simp
      with ih(4) show ?thesis by blast
    qed
    with ih show ?thesis by simp
  qed
qed

lemma filter_upt_Nil: "filter P [a ..< n] = [] \<Longrightarrow> \<forall>k. a \<le> k \<and> k < n \<longrightarrow> \<not> P k"
  by (simp add: filter_empty_conv)

lemma generateMains_order:
  fixes lines :: "string list"
  defines "P \<equiv> \<lambda>i. level (lines ! i) = 0"
  assumes "is = filter P [a ..< length lines]"
    and "generateMains pf lines (map (\<lambda>i. (lines ! i, i)) is) b = (None, b')"
    and "parent b = Element d old"
  shows "\<exists>news. parent b' = Element d (old @ news) \<and> map node_uid news = is
      \<and> (\<forall>m\<in>set news. is_element m \<and> (\<forall>c\<in>set (childNodes m). ordered c))
      \<and> length (blockLevels lines (map (\<lambda>i. (lines ! i, i)) is)) = length news
      \<and> (\<forall>j<length news. levels_rise (blockLevels lines (map (\<lambda>i. (lines ! i, i)) is) ! j)
           \<longrightarrow> ordered (news ! j))"
  using assms(2-)
proof (induction "is" arbitrary: a b old)
  case Nil
  then show ?case by simp
next
  case (Cons i rest)
  let ?n = "length lines"
  let ?mk = "\<lambda>i. (lines ! i, i)"
  from filter_upt_Cons [OF Cons.prems(1) [symmetric]]
  have rest: "rest = filter P [Suc i ..< ?n]" and i: "i < ?n" by simp_all
  define nb where "nb = (case rest of [] \<Rightarrow> ?n | j # others \<Rightarrow> j)"
  have nx: "(case map ?mk rest of [] \<Rightarrow> ?n | (l, j) # others \<Rightarrow> j) = nb"
    by (cases rest) (simp_all add: nb_def)
  have blk: "\<forall>k. Suc i \<le> k \<and> k < nb \<longrightarrow> \<not> P k"
  proof (cases rest)
    case Nil
    then have nbn: "nb = ?n" by (simp add: nb_def)
    from Nil rest have "filter P [Suc i ..< ?n] = []" by simp
    from filter_upt_Nil [OF this] show ?thesis unfolding nbn by blast
  next
    case (Cons j others)
    then have nbj: "nb = j" by (simp add: nb_def)
    from Cons rest have "filter P [Suc i ..< ?n] = j # others" by simp
    from filter_upt_Cons [OF this] show ?thesis unfolding nbj by blast
  qed
  from Cons.prems(2) obtain mainElement cs where
    me: "createElementFromLine pf b i (lines ! i) = Inr mainElement" and
    ch: "createChildren pf b lines [i + 1 ..< nb] = Inr cs" and
    rc: "generateMains pf lines (map ?mk rest)
           (b\<lparr>parent := appendChild (parent b) (reconstruct mainElement cs)\<rparr>) = (None, b')"
    by (auto simp: Let_def nx split: sum.splits)
  let ?R = "reconstruct mainElement cs"
  let ?b1 = "b\<lparr>parent := appendChild (parent b) ?R\<rparr>"
  have p1: "parent ?b1 = Element d (old @ [?R])" using Cons.prems(3) by simp
  from Cons.IH [OF rest rc p1] obtain news' where
    n1: "parent b' = Element d ((old @ [?R]) @ news')" and
    n2: "map node_uid news' = rest" and
    n3: "\<forall>m\<in>set news'. is_element m \<and> (\<forall>c\<in>set (childNodes m). ordered c)" and
    n4: "length (blockLevels lines (map ?mk rest)) = length news'" and
    n5: "\<forall>j<length news'. levels_rise (blockLevels lines (map ?mk rest) ! j)
           \<longrightarrow> ordered (news' ! j)"
    by blast
  note cp = createChildren_props [OF ch]
  have srt: "sorted_wrt (<) (map (\<lambda>p. node_uid (fst p)) cs)"
    unfolding cp(1) by (rule sorted_wrt_upt)
  have lv: "\<forall>p\<in>set cs. 1 \<le> snd p"
  proof
    fix p assume "p \<in> set cs"
    then have "snd p \<in> set (map snd cs)" by simp
    then obtain k where "Suc i \<le> k" "k < nb" "snd p = level (lines ! k)"
      unfolding cp(2) by auto
    with blk show "1 \<le> snd p" by (auto simp: P_def)
  qed
  note ro = reconstruct_ordered [OF createElementFromLine_fresh [OF me] srt lv cp(3)]
  have bl: "blockLevels lines (map ?mk (i # rest)) = map snd cs # blockLevels lines (map ?mk rest)"
    by (simp add: Let_def nx cp(2))
  show ?case
  proof (intro exI [of _ "?R # news'"] conjI)
    show "parent b' = Element d (old @ ?R # news')" using n1 by simp
    show "map node_uid (?R # news') = i # rest" using ro(2) n2 by simp
    show "\<forall>m\<in>set (?R # news'). is_element m \<and> (\<forall>c\<in>set (childNodes m). ordered c)"
      using ro(1,3) n3 by simp
    show "length (blockLevels lines (map ?mk (i # rest))) = length (?R # news')"
      unfolding bl using n4 by simp
    show "\<forall>j<length (?R # news'). levels_rise (blockLevels lines (map ?mk (i # rest)) ! j)
            \<longrightarrow> ordered ((?R # news') ! j)"
      unfolding bl
    proof (intro allI impI)
      fix j assume j: "j < length (?R # news')"
        and r: "levels_rise ((map snd cs # blockLevels lines (map ?mk rest)) ! j)"
      show "ordered ((?R # news') ! j)"
      proof (cases j)
        case 0
        with r ro(4) show ?thesis by simp
      next
        case (Suc j')
        with j r n5 show ?thesis by simp
      qed
    qed
  qed
qed

lemma levels_rise_nested:
  assumes "\<forall>i<length ls. ls ! i \<noteq> 1 \<longrightarrow> (\<exists>j<i. Suc (ls ! j) = ls ! i)"
  shows "levels_rise ls"
  unfolding levels_rise_def
proof (intro allI impI)
  fix k i assume k: "k < length ls" and i: "i < k"
    and a: "attaches_to_main ls i \<and> attaches_to_main ls k"
  from i k have "i < length ls" by simp
  with assms a have "ls ! i = 1" unfolding attaches_to_main_def by blast
  moreover from assms a k have "ls ! k = 1" unfolding attaches_to_main_def by blast
  ultimately show "ls ! i \<le> ls ! k" by simp
qed

lemma extractLinesFrom_blank:
  assumes "trim template = []"
  shows "extractLinesFrom template = []"
proof -
  have "trim [] = []" by (simp add: trim_def)
  with assms have "extractLinesFrom template = extractLinesFrom []"
    by (simp only: extractLinesFrom_def)
  with extractLinesFrom_Nil show ?thesis by simp
qed

text \<open>
  Claim C1, as amended. When \<open>generate\<close> returns normally it has appended one element per
  main line to the parent, in the order of the main lines, and \<open>blockLevels\<close> has one block
  per appended element. In each appended element the children of every descendant node
  stand in the order of their lines, at every depth, whatever the template. The children
  of the \<open>j\<close>-th main element itself stand in the order of their lines when, in its own
  block, the levels of the lines attached to it never decrease, whatever the other blocks
  are (\<open>levels_rise\<close>; by \<open>levels_rise_nested\<close> this holds when every line of the block that
  is not of level 1 has an earlier line of the block one level above it).
\<close>

theorem generate_order:
  assumes "generate pf template b = (None, b')" and "parent b = Element d old"
  shows "\<exists>news. parent b' = Element d (old @ news)
      \<and> map node_uid news = map snd (mainLines (extractLinesFrom template))
      \<and> (\<forall>m\<in>set news. \<forall>c\<in>set (childNodes m). ordered c)
      \<and> length (blockLevels (extractLinesFrom template) (mainLines (extractLinesFrom template)))
          = length news
      \<and> (\<forall>j<length news.
            levels_rise
              (blockLevels (extractLinesFrom template) (mainLines (extractLinesFrom template)) ! j)
            \<longrightarrow> ordered (news ! j))"
proof (cases "trim template = []")
  case True
  with assms(1) have "b' = b" by (simp add: generate_def)
  with True assms(2) extractLinesFrom_blank [OF True] show ?thesis
    by (simp add: mainLines_def)
next
  case False
  let ?lines = "extractLinesFrom template"
  let ?is = "filter (\<lambda>i. level (?lines ! i) = 0) [0 ..< length ?lines]"
  have ml: "mainLines ?lines = map (\<lambda>i. (?lines ! i, i)) ?is" by (simp add: mainLines_def)
  from False assms(1) have g: "generateMains pf ?lines (map (\<lambda>i. (?lines ! i, i)) ?is) b = (None, b')"
    by (simp add: generate_def Let_def ml)
  from generateMains_order [OF refl g assms(2)] obtain news where
    n: "parent b' = Element d (old @ news)" "map node_uid news = ?is"
      "\<forall>m\<in>set news. is_element m \<and> (\<forall>c\<in>set (childNodes m). ordered c)"
      "length (blockLevels ?lines (map (\<lambda>i. (?lines ! i, i)) ?is)) = length news"
      "\<forall>j<length news. levels_rise (blockLevels ?lines (map (\<lambda>i. (?lines ! i, i)) ?is) ! j)
         \<longrightarrow> ordered (news ! j)"
    by blast
  have ms: "map snd (mainLines ?lines) = ?is" by (simp add: ml comp_def)
  show ?thesis
  proof (intro exI [of _ news] conjI)
    show "parent b' = Element d (old @ news)" by (rule n(1))
    show "map node_uid news = map snd (mainLines ?lines)" using n(2) ms by simp
    show "\<forall>m\<in>set news. \<forall>c\<in>set (childNodes m). ordered c" using n(3) by blast
    show "length (blockLevels ?lines (mainLines ?lines)) = length news"
      using n(4) by (simp only: ml)
    show "\<forall>j<length news. levels_rise (blockLevels ?lines (mainLines ?lines) ! j)
            \<longrightarrow> ordered (news ! j)"
      using n(5) by (simp only: ml)
  qed
qed

lemma two_blocks_generate_returns:
  "fst (generate simple_platform two_blocks (new_HTMLBuilder body)) = None"
  by code_simp

lemma two_blocks_blockLevels:
  "blockLevels (extractLinesFrom two_blocks) (mainLines (extractLinesFrom two_blocks))
     = [[1, 1], [2, 1]]"
  by code_simp

lemma two_blocks_levels_rise: "levels_rise [1, 1]" "\<not> levels_rise [2, 1]"
  by code_simp+

lemma two_blocks_second:
  "map node_uid
     (children (childNodes (parent (snd (generate simple_platform two_blocks (new_HTMLBuilder body)))) ! 1))
   = [5, 4]"
  by code_simp

theorem generate_order_witness:
  "fst (generate simple_platform two_blocks (new_HTMLBuilder body)) = None
   \<and> blockLevels (extractLinesFrom two_blocks) (mainLines (extractLinesFrom two_blocks))
       = [[1, 1], [2, 1]]
   \<and> levels_rise [1, 1]
   \<and> \<not> levels_rise [2, 1]
   \<and> ordered (childNodes (parent (snd (generate simple_platform two_blocks (new_HTMLBuilder body)))) ! 0)
   \<and> map node_uid
        (children (childNodes (parent (snd (generate simple_platform two_blocks (new_HTMLBuilder body)))) ! 1))
      = [5, 4]"
proof -
  let ?b = "new_HTMLBuilder body :: (unit, unit) HTMLBuilder"
  let ?r = "generate simple_platform two_blocks ?b"
  let ?d = "\<lparr>uid = 0, tagName = ''body'', classList = [], attributes = [],
      elem_id = None, listeners = []\<rparr> :: (unit, unit) element_data"
  have g: "?r = (None, snd ?r)"
    using two_blocks_generate_returns by (simp add: prod_eq_iff)
  have p: "parent ?b = Element ?d []"
    by (simp add: new_HTMLBuilder_def body_def)
  from generate_order [OF g p] obtain news where
    n: "parent (snd ?r) = Element ?d ([] @ news)"
      "length (blockLevels (extractLinesFrom two_blocks) (mainLines (extractLinesFrom two_blocks)))
         = length news"
      "\<forall>j<length news.
          levels_rise (blockLevels (extractLinesFrom two_blocks) (mainLines (extractLinesFrom two_blocks)) ! j)
          \<longrightarrow> ordered (news ! j)"
    by blast
  from n(2) have l: "length news = 2" by (simp add: two_blocks_blockLevels)
  with n(3) two_blocks_levels_rise(1) have "ordered (news ! 0)"
    by (simp add: two_blocks_blockLevels)
  with n(1) have "ordered (childNodes (parent (snd ?r)) ! 0)" by simp
  with two_blocks_generate_returns two_blocks_blockLevels two_blocks_levels_rise two_blocks_second
  show ?thesis by simp
qed

text \<open>
  The claim as stated fails: in \<open>div\<close>, \<open>>>a\<close>, \<open>>b\<close> both lines attach to the main element,
  the deeper line 1 is prepended first and line 2 after it, so the children of \<open>div\<close> are
  line 2, then line 1.
\<close>

theorem generate_order_counterexample:
  "fst (generate simple_platform ''div\<newline>>>a\<newline>>b'' (new_HTMLBuilder body)) = None
   \<and> map (\<lambda>m. map node_uid (children m))
        (children (parent (snd (generate simple_platform ''div\<newline>>>a\<newline>>b'' (new_HTMLBuilder body)))))
      = [[2, 1]]
   \<and> \<not> list_all ordered
        (childNodes (parent (snd (generate simple_platform ''div\<newline>>>a\<newline>>b'' (new_HTMLBuilder body)))))"
  by code_simp

end
